theory Spec2Isabelle
  imports Main "HOL-Library.AList"
begin

section \<open>Strings of the Go standard library\<close>

text \<open>
  A Go string is a sequence of bytes; it is modelled as a \<open>string\<close>, one \<open>char\<close> per byte.
  The functions of package \<open>strings\<close> that the program calls are written out here.
\<close>

definition newline :: char where
  "newline = CHR 0x0A"

definition HasPrefix :: "string \<Rightarrow> string \<Rightarrow> bool" where
  "HasPrefix s p = (take (length p) s = p)"

definition HasSuffix :: "string \<Rightarrow> string \<Rightarrow> bool" where
  "HasSuffix s p = (length p \<le> length s \<and> drop (length s - length p) s = p)"

definition TrimPrefix :: "string \<Rightarrow> string \<Rightarrow> string" where
  "TrimPrefix s p = (if HasPrefix s p then drop (length p) s else s)"

definition TrimSuffix :: "string \<Rightarrow> string \<Rightarrow> string" where
  "TrimSuffix s p = (if HasSuffix s p then take (length s - length p) s else s)"

fun Contains :: "string \<Rightarrow> string \<Rightarrow> bool" where
  "Contains [] sub = (sub = [])"
| "Contains (c # cs) sub = (HasPrefix (c # cs) sub \<or> Contains cs sub)"

text \<open>
  \<open>strings.Split(s, "\n")\<close>: the pieces between the line feeds, one more than there are
  line feeds; the empty string gives one empty piece.
\<close>

fun Split :: "string \<Rightarrow> string list" where
  "Split [] = [[]]"
| "Split (c # cs) =
     (if c = newline then [] # Split cs
      else (case Split cs of [] \<Rightarrow> [[c]] | piece # pieces \<Rightarrow> (c # piece) # pieces))"

text \<open>\<open>strings.Join(xs, "\n")\<close>.\<close>

fun Join :: "string list \<Rightarrow> string" where
  "Join [] = []"
| "Join [x] = x"
| "Join (x # y # ys) = x @ newline # Join (y # ys)"

text \<open>\<open>strings.Join(parts, " > ")\<close>, used for the heading breadcrumb.\<close>

fun JoinWith :: "string \<Rightarrow> string list \<Rightarrow> string" where
  "JoinWith sep [] = []"
| "JoinWith sep [x] = x"
| "JoinWith sep (x # y # ys) = x @ sep @ JoinWith sep (y # ys)"

text \<open>
  \<open>strings.TrimSpace\<close> removes the white space of Unicode from both ends. On the bytes of a
  string white space is one of six ASCII bytes or the UTF-8 encoding of one of the code
  points U+0085, U+00A0, U+1680, U+2000 to U+200A, U+2028, U+2029, U+202F, U+205F, U+3000.
  \<open>spaceWidth s\<close> is the number of bytes of the white space character at the head of \<open>s\<close>
  (0 when there is none), \<open>spaceWidthEnd s\<close> the same at the end.
\<close>

definition asciiSpace :: "char \<Rightarrow> bool" where
  "asciiSpace c = (c = CHR 0x09 \<or> c = CHR 0x0A \<or> c = CHR 0x0B \<or> c = CHR 0x0C
                  \<or> c = CHR 0x0D \<or> c = CHR 0x20)"

definition space2 :: "string \<Rightarrow> bool" where
  "space2 s = (s = [CHR 0xC2, CHR 0x85] \<or> s = [CHR 0xC2, CHR 0xA0])"

definition space3 :: "string \<Rightarrow> bool" where
  "space3 s = (case s of
     [a, b, c] \<Rightarrow>
        (a = CHR 0xE1 \<and> b = CHR 0x9A \<and> c = CHR 0x80)
      \<or> (a = CHR 0xE2 \<and> b = CHR 0x80 \<and>
            (of_char c \<in> {0x80 .. (0x8A :: nat)} \<or> c = CHR 0xA8 \<or> c = CHR 0xA9 \<or> c = CHR 0xAF))
      \<or> (a = CHR 0xE2 \<and> b = CHR 0x81 \<and> c = CHR 0x9F)
      \<or> (a = CHR 0xE3 \<and> b = CHR 0x80 \<and> c = CHR 0x80)
   | _ \<Rightarrow> False)"

definition spaceWidth :: "string \<Rightarrow> nat" where
  "spaceWidth s =
     (if s = [] then 0
      else if asciiSpace (hd s) then 1
      else if space2 (take 2 s) then 2
      else if space3 (take 3 s) then 3
      else 0)"

definition spaceWidthEnd :: "string \<Rightarrow> nat" where
  "spaceWidthEnd s =
     (if s = [] then 0
      else if asciiSpace (last s) then 1
      else if space2 (drop (length s - 2) s) then 2
      else if space3 (drop (length s - 3) s) then 3
      else 0)"

function TrimLeft :: "string \<Rightarrow> string" where
  "TrimLeft s = (if spaceWidth s = 0 then s else TrimLeft (drop (spaceWidth s) s))"
  by pat_completeness auto
termination
  by (relation "measure length") (auto simp: spaceWidth_def split: if_splits)

declare TrimLeft.simps [simp del]

function TrimRight :: "string \<Rightarrow> string" where
  "TrimRight s =
     (if spaceWidthEnd s = 0 then s else TrimRight (take (length s - spaceWidthEnd s) s))"
  by pat_completeness auto
termination
  by (relation "measure length") (auto simp: spaceWidthEnd_def split: if_splits)

declare TrimRight.simps [simp del]

definition TrimSpace :: "string \<Rightarrow> string" where
  "TrimSpace s = TrimRight (TrimLeft s)"

section \<open>The trigger decision (cmd/picoclaw/rag.go, package rag)\<close>

record TriggerDecision =
  CleanedMessage :: string
  ShouldSearch :: bool
  Forced :: bool
  Skipped :: bool
  MatchedKeyword :: string

text \<open>The fields of \<open>config.RagTriggerConfig\<close> that \<open>DecideTrigger\<close> reads.\<close>

record RagTriggerConfig =
  ForcePrefixes :: "string list"
  SkipPrefixes :: "string list"
  Auto :: bool
  AutoKeywords :: "string list"

text \<open>\<open>matchPrefix\<close> returns the prefix and \<open>true\<close>, or \<open>""\<close> and \<open>false\<close>.\<close>

fun matchPrefix :: "string \<Rightarrow> string list \<Rightarrow> string \<times> bool" where
  "matchPrefix message [] = ([], False)"
| "matchPrefix message (prefix # prefixes) =
     (if prefix = [] then matchPrefix message prefixes
      else if HasPrefix message prefix then (prefix, True)
      else matchPrefix message prefixes)"

text \<open>
  \<open>strings.ToLower\<close> maps every character through the case tables of Unicode; the tables
  are not part of the program, so the mapping is the parameter \<open>toLower\<close>. On ASCII text it
  is \<open>asciiToLower\<close>.
\<close>

definition asciiToLower :: "string \<Rightarrow> string" where
  "asciiToLower s =
     map (\<lambda>c. if (65 :: nat) \<le> of_char c \<and> of_char c \<le> (90 :: nat)
              then char_of (of_char c + (32 :: nat)) else c) s"

fun matchKeywordLoop :: "(string \<Rightarrow> string) \<Rightarrow> string \<Rightarrow> string list \<Rightarrow> string" where
  "matchKeywordLoop toLower lower [] = []"
| "matchKeywordLoop toLower lower (kw # keywords) =
     (if kw = [] then matchKeywordLoop toLower lower keywords
      else if Contains lower (toLower kw) then kw
      else matchKeywordLoop toLower lower keywords)"

definition matchKeyword :: "(string \<Rightarrow> string) \<Rightarrow> string \<Rightarrow> string list \<Rightarrow> string" where
  "matchKeyword toLower message keywords =
     (if length keywords = 0 then []
      else matchKeywordLoop toLower (toLower message) keywords)"

definition noDecision :: "string \<Rightarrow> TriggerDecision" where
  "noDecision clean =
     \<lparr>CleanedMessage = clean, ShouldSearch = False, Forced = False, Skipped = False,
      MatchedKeyword = []\<rparr>"

definition DecideTrigger ::
  "(string \<Rightarrow> string) \<Rightarrow> string \<Rightarrow> RagTriggerConfig \<Rightarrow> TriggerDecision" where
  "DecideTrigger toLower message cfg =
     (let trimmed = TrimSpace message in
      if trimmed = [] then noDecision message
      else let (prefix, ok) = matchPrefix trimmed (ForcePrefixes cfg) in
      if ok then
        \<lparr>CleanedMessage = TrimSpace (TrimPrefix trimmed prefix), ShouldSearch = True,
         Forced = True, Skipped = False, MatchedKeyword = []\<rparr>
      else let (prefix, ok) = matchPrefix trimmed (SkipPrefixes cfg) in
      if ok then
        \<lparr>CleanedMessage = TrimSpace (TrimPrefix trimmed prefix), ShouldSearch = False,
         Forced = False, Skipped = True, MatchedKeyword = []\<rparr>
      else let clean = trimmed in
      if \<not> Auto cfg then noDecision clean
      else let keyword = matchKeyword toLower clean (AutoKeywords cfg) in
      if keyword \<noteq> [] then
        \<lparr>CleanedMessage = clean, ShouldSearch = True, Forced = False, Skipped = False,
         MatchedKeyword = keyword\<rparr>
      else noDecision clean)"

section \<open>Paths (package path/filepath, with \<open>/\<close> as the separator)\<close>

definition slash :: char where
  "slash = CHR ''/''"

text \<open>\<open>filepath.Base\<close>: the last element of the path, trailing slashes removed first.\<close>

definition Base :: "string \<Rightarrow> string" where
  "Base path =
     (if path = [] then ''.''
      else let stripped = rev (dropWhile (\<lambda>c. c = slash) (rev path));
               element = rev (takeWhile (\<lambda>c. c \<noteq> slash) (rev stripped))
           in if element = [] then [slash] else element)"

text \<open>\<open>filepath.Ext\<close>: the suffix from the last dot of the last element, or \<open>""\<close>.\<close>

definition Ext :: "string \<Rightarrow> string" where
  "Ext path =
     (let element = rev (takeWhile (\<lambda>c. c \<noteq> slash) (rev path))
      in if CHR ''.'' \<in> set element
         then CHR ''.'' # rev (takeWhile (\<lambda>c. c \<noteq> CHR ''.'') (rev element))
         else [])"

section \<open>The chunker (pkg/rag, chunkMarkdown)\<close>

record chunk =
  Path :: string
  Heading :: string
  StartLine :: int
  EndLine :: int
  Content :: string

text \<open>\<open>joinHeading\<close>: the non-empty entries of the stack, joined with \<open>" > "\<close>.\<close>

definition joinHeading :: "string list \<Rightarrow> string" where
  "joinHeading stack = JoinWith '' > '' (filter (\<lambda>h. h \<noteq> []) stack)"

text \<open>The loop \<open>for j := level; j < len(stack); j++ { stack[j] = "" }\<close>.\<close>

function clearDeeper :: "nat \<Rightarrow> string list \<Rightarrow> string list" where
  "clearDeeper j stack =
     (if j < length stack then clearDeeper (j + 1) (stack[j := []]) else stack)"
  by pat_completeness auto
termination
  by (relation "measure (\<lambda>(j, stack). length stack - j)") auto

declare clearDeeper.simps [simp del]

text \<open>The loop \<open>for level < len(trimmed) && trimmed[level] == '#' { level++ }\<close> from 0.\<close>

definition countHashes :: "string \<Rightarrow> nat" where
  "countHashes trimmed = length (takeWhile (\<lambda>c. c = CHR ''#'') trimmed)"

text \<open>The body of the loop of \<open>headingsByLine\<close>, up to the assignment to \<open>headings[i]\<close>.\<close>

definition updateStack :: "string list \<Rightarrow> string \<Rightarrow> string list" where
  "updateStack stack line =
     (let trimmed = TrimSpace line in
      if HasPrefix trimmed ''#'' then
        let level = countHashes trimmed in
        if level > 0 \<and> level \<le> 6 then
          let title = TrimSpace (drop level trimmed) in
          if title \<noteq> [] then clearDeeper level (stack[level - 1 := title])
          else stack
        else stack
      else stack)"

fun headingsLoop :: "string list \<Rightarrow> string list \<Rightarrow> string list" where
  "headingsLoop stack [] = []"
| "headingsLoop stack (line # lines) =
     (let stack' = updateStack stack line
      in joinHeading stack' # headingsLoop stack' lines)"

definition headingsByLine :: "string list \<Rightarrow> string list" where
  "headingsByLine lines = headingsLoop (replicate 6 []) lines"

text \<open>
  The inner loop of \<open>chunkMarkdown\<close>, which accepts lines while the budget holds; it returns
  the new value of \<open>i\<close>.
\<close>

function fillChunk :: "string list \<Rightarrow> int \<Rightarrow> nat \<Rightarrow> int \<Rightarrow> nat" where
  "fillChunk lines chunkSize i charCount =
     (if i < length lines then
        let lineLen = int (length (lines ! i)) + 1 in
        if charCount > 0 \<and> charCount + lineLen > chunkSize then i
        else fillChunk lines chunkSize (i + 1) (charCount + lineLen)
      else i)"
  by pat_completeness auto
termination
  by (relation "measure (\<lambda>(lines, chunkSize, i, charCount). length lines - i)") auto

declare fillChunk.simps [simp del]

text \<open>
  The walk back over the lines of the closed chunk, \<open>for j >= start { ... j-- }\<close>; it returns
  the value of \<open>j\<close> at the exit of the loop, which is \<open>start - 1\<close> when the budget was not met.
\<close>

function walkBack :: "string list \<Rightarrow> int \<Rightarrow> int \<Rightarrow> int \<Rightarrow> int \<Rightarrow> int" where
  "walkBack lines chunkOverlap start j overlapChars =
     (if j \<ge> start then
        let overlapChars' = overlapChars + (int (length (lines ! nat j)) + 1) in
        if overlapChars' \<ge> chunkOverlap then j
        else walkBack lines chunkOverlap start (j - 1) overlapChars'
      else j)"
  by pat_completeness auto
termination
  by (relation "measure (\<lambda>(lines, chunkOverlap, start, j, overlapChars). nat (j - start + 1))") auto

declare walkBack.simps [simp del]

text \<open>
  The chunk closed at lines \<open>start .. i - 1\<close> (counted from 0), appended when its trimmed text
  is not empty; the heading is that of its first line, or the base name of the file without
  its extension.
\<close>

definition appendChunk ::
  "string \<Rightarrow> string list \<Rightarrow> string list \<Rightarrow> nat \<Rightarrow> nat \<Rightarrow> chunk list \<Rightarrow> chunk list" where
  "appendChunk path lines headings start i chunks =
     (let end = int i - 1;
          heading = (if headings ! start = []
                     then TrimSuffix (Base path) (Ext path) else headings ! start);
          content = TrimSpace (Join (take (i - start) (drop start lines)))
      in if content \<noteq> [] then
           chunks @ [\<lparr>Path = path, Heading = heading, StartLine = int start + 1,
                      EndLine = end + 1, Content = content\<rparr>]
         else chunks)"

text \<open>
  The overlap step, \<open>if chunkOverlap > 0 { ... }\<close>: the scan position for the next round,
  after a chunk of lines \<open>start .. i - 1\<close>.
\<close>

definition overlapStart :: "string list \<Rightarrow> int \<Rightarrow> nat \<Rightarrow> nat \<Rightarrow> nat" where
  "overlapStart lines chunkOverlap start i =
     (if chunkOverlap > 0 then
        let j = walkBack lines chunkOverlap (int start) (int i - 1) 0;
            j1 = (if j < int start then int start else j)
        in if j1 < int i then nat j1 else i
      else i)"

text \<open>
  The outer loop of \<open>chunkMarkdown\<close>. Nothing bounds the number of its rounds, so it is a
  partial function: \<open>None\<close> is a loop that never ends.
\<close>

partial_function (option) chunkLoop ::
  "string \<Rightarrow> string list \<Rightarrow> string list \<Rightarrow> int \<Rightarrow> int \<Rightarrow> nat \<Rightarrow> chunk list
     \<Rightarrow> chunk list option" where
  "chunkLoop path lines headings chunkSize chunkOverlap i chunks =
     (if i < length lines then
        let start = i;
            i1 = fillChunk lines chunkSize i 0;
            end = int i1 - 1
        in
        if end < int start then Some chunks
        else
          let chunks1 = appendChunk path lines headings start i1 chunks in
          if i1 \<ge> length lines then Some chunks1
          else chunkLoop path lines headings chunkSize chunkOverlap
                 (overlapStart lines chunkOverlap start i1) chunks1
      else Some chunks)"

declare chunkLoop.simps [code]

definition chunkMarkdown :: "string \<Rightarrow> string \<Rightarrow> int \<Rightarrow> int \<Rightarrow> chunk list option" where
  "chunkMarkdown path content chunkSize0 chunkOverlap0 =
     (let chunkSize = (if chunkSize0 \<le> 0 then 800 else chunkSize0);
          chunkOverlap1 = (if chunkOverlap0 < 0 then 0 else chunkOverlap0);
          chunkOverlap = (if chunkOverlap1 \<ge> chunkSize then chunkSize div 2 else chunkOverlap1);
          lines = Split content;
          headings = headingsByLine lines
      in chunkLoop path lines headings chunkSize chunkOverlap 0 [])"

section \<open>File discovery (pkg/rag, listMarkdownFiles)\<close>

text \<open>
  An error of the run: the ones the indexer makes itself, and \<open>External\<close> for an error that
  a collaborator, the file system or a library call returned.
\<close>

datatype error =
    VaultPathRequired
  | VaultPathNotFound string
  | InvalidEmbeddingDimension
  | ReadFailed string error
  | EmbeddingSizeMismatch
  | EmbeddingDimensionMismatch int int
  | External string

record fileEntry =
  AbsPath :: string
  RelPath :: string
  MTime :: int

text \<open>\<open>filepath.ToSlash\<close> with \<open>/\<close> as the separator of the platform.\<close>

definition ToSlash :: "string \<Rightarrow> string" where
  "ToSlash path = path"

definition backslash :: char where
  "backslash = CHR 0x5C"

text \<open>
  \<open>globToRegex\<close> writes the text of a regular expression, one pattern byte at a time;
  \<open>translateByte\<close> is the \<open>switch\<close> for every byte but \<open>*\<close>, \<open>globBody\<close> the loop.
\<close>

definition translateByte :: "char \<Rightarrow> string" where
  "translateByte ch =
     (if ch = CHR ''?'' then ''.''
      else if ch = CHR ''.'' then [backslash, CHR ''.'']
      else if ch \<in> set ''+()[]{}|^$'' \<or> ch = backslash then [backslash, ch]
      else [ch])"

fun globBody :: "string \<Rightarrow> string" where
  "globBody [] = []"
| "globBody [ch] = (if ch = CHR ''*'' then ''[^/]*'' else translateByte ch)"
| "globBody (ch # ch2 # rest) =
     (if ch = CHR ''*'' then
        (if ch2 = CHR ''*'' then ''.*'' @ globBody rest
         else ''[^/]*'' @ globBody (ch2 # rest))
      else translateByte ch @ globBody (ch2 # rest))"

definition globRegexText :: "string \<Rightarrow> string" where
  "globRegexText pattern = ''^'' @ globBody (ToSlash pattern) @ ''$''"

text \<open>
  \<open>regexp.Compile\<close> and \<open>MatchString\<close> belong to the Go library. They are modelled on the
  expressions that \<open>globToRegex\<close> can write: between \<open>^\<close> and \<open>$\<close> a sequence of \<open>.*\<close>,
  \<open>[^/]*\<close>, \<open>.\<close>, an escaped punctuation character, or a character that is not an operator.
  Any other text is refused (\<open>None\<close>). The flags of \<open>regexp.Compile\<close> let \<open>.\<close> match any
  character but the line feed, let a negated class match the line feed, and bind \<open>^\<close> and
  \<open>$\<close> to the two ends of the text. One \<open>char\<close> stands for one character of the text.
\<close>

datatype atom = AnyRun | SegmentRun | AnyChar | Literal char

type_synonym regexp = "atom list"

definition operatorChar :: "char \<Rightarrow> bool" where
  "operatorChar c = (c \<in> set ''.+*?()[]{}|^$'' \<or> c = backslash)"

function parseBody :: "string \<Rightarrow> regexp option" where
  "parseBody s =
     (if s = [] then Some []
      else if take 2 s = ''.*'' then map_option (Cons AnyRun) (parseBody (drop 2 s))
      else if take 5 s = ''[^/]*'' then map_option (Cons SegmentRun) (parseBody (drop 5 s))
      else if hd s = CHR ''.'' then map_option (Cons AnyChar) (parseBody (tl s))
      else if hd s = backslash then
        (if tl s \<noteq> [] \<and> operatorChar (hd (tl s))
         then map_option (Cons (Literal (hd (tl s)))) (parseBody (tl (tl s)))
         else None)
      else if operatorChar (hd s) then None
      else map_option (Cons (Literal (hd s))) (parseBody (tl s)))"
  by pat_completeness auto
termination
  by (relation "measure length") (auto simp: neq_Nil_conv)

declare parseBody.simps [simp del]

definition regexpCompile :: "string \<Rightarrow> regexp option" where
  "regexpCompile s =
     (if 2 \<le> length s \<and> hd s = CHR ''^'' \<and> last s = CHR ''$''
      then parseBody (butlast (tl s)) else None)"

fun MatchString :: "regexp \<Rightarrow> string \<Rightarrow> bool" where
  "MatchString [] s = (s = [])"
| "MatchString (AnyRun # re) [] = MatchString re []"
| "MatchString (AnyRun # re) (c # s) =
     (MatchString re (c # s) \<or> (c \<noteq> newline \<and> MatchString (AnyRun # re) s))"
| "MatchString (SegmentRun # re) [] = MatchString re []"
| "MatchString (SegmentRun # re) (c # s) =
     (MatchString re (c # s) \<or> (c \<noteq> slash \<and> MatchString (SegmentRun # re) s))"
| "MatchString (AnyChar # re) [] = False"
| "MatchString (AnyChar # re) (c # s) = (c \<noteq> newline \<and> MatchString re s)"
| "MatchString (Literal l # re) [] = False"
| "MatchString (Literal l # re) (c # s) = (c = l \<and> MatchString re s)"

text \<open>\<open>globToRegex\<close>: \<open>None\<close> is the error of \<open>regexp.Compile\<close>.\<close>

definition globToRegex :: "string \<Rightarrow> regexp option" where
  "globToRegex pattern = regexpCompile (globRegexText pattern)"

fun compilePatterns :: "string list \<Rightarrow> regexp list" where
  "compilePatterns [] = []"
| "compilePatterns (pat # patterns) =
     (let pat' = TrimSpace pat in
      if pat' = [] then compilePatterns patterns
      else case globToRegex pat' of
             None \<Rightarrow> compilePatterns patterns
           | Some re \<Rightarrow> re # compilePatterns patterns)"

fun matchesAny :: "string \<Rightarrow> regexp list \<Rightarrow> bool" where
  "matchesAny path [] = False"
| "matchesAny path (re # patterns) = (if MatchString re path then True else matchesAny path patterns)"

text \<open>
  What \<open>filepath.WalkDir\<close> hands to the callback for one entry under the root, in the order
  of the walk: the path, the error of the walk, whether it is a directory, the result of
  \<open>filepath.Rel(root, path)\<close> and the result of \<open>d.Info()\<close> read as \<open>ModTime().UnixNano()\<close>.
\<close>

record walkEntry =
  WalkPath :: string
  WalkErr :: "error option"
  IsDir :: bool
  RelResult :: "error + string"
  InfoResult :: "error + int"

text \<open>The callback of \<open>listMarkdownFiles\<close>, run over the entries until one returns an error.\<close>

fun walkFiles ::
  "regexp list \<Rightarrow> regexp list \<Rightarrow> walkEntry list \<Rightarrow> fileEntry list \<Rightarrow> error + fileEntry list" where
  "walkFiles includeRegex excludeRegex [] files = Inr files"
| "walkFiles includeRegex excludeRegex (d # ds) files =
     (case WalkErr d of
        Some err \<Rightarrow> Inl err
      | None \<Rightarrow>
          if IsDir d then walkFiles includeRegex excludeRegex ds files
          else if Ext (WalkPath d) \<noteq> ''.md'' then walkFiles includeRegex excludeRegex ds files
          else case RelResult d of
            Inl err \<Rightarrow> Inl err
          | Inr rel0 \<Rightarrow>
              let rel = ToSlash rel0 in
              if matchesAny rel excludeRegex then walkFiles includeRegex excludeRegex ds files
              else if length includeRegex > 0 \<and> \<not> matchesAny rel includeRegex
                then walkFiles includeRegex excludeRegex ds files
              else case InfoResult d of
                Inl err \<Rightarrow> Inl err
              | Inr mtime \<Rightarrow>
                  walkFiles includeRegex excludeRegex ds
                    (files @ [\<lparr>AbsPath = WalkPath d, RelPath = rel, MTime = mtime\<rparr>]))"

definition listMarkdownFiles ::
  "walkEntry list \<Rightarrow> string list \<Rightarrow> string list \<Rightarrow> error + fileEntry list" where
  "listMarkdownFiles walk includePatterns excludePatterns =
     (let includeRegex = compilePatterns includePatterns;
          excludeRegex = compilePatterns excludePatterns
      in walkFiles includeRegex excludeRegex walk [])"






section \<open>The manifest (cmd/picoclaw/rag.go, package rag: indexState)\<close>

text \<open>
  \<open>Files\<close> is a Go map from relative path to the time of last modification. It is an
  association list read through \<open>map_of\<close> and changed through \<open>AList.update\<close> and
  \<open>AList.delete\<close>; a map holds each key once (\<open>distinct (map fst (Files s))\<close>), and the order
  of the list is the order in which \<open>range\<close> happens to visit the keys. A \<open>nil\<close> map and an
  empty one are both \<open>[]\<close>, as are a \<open>nil\<close> slice and an empty one.
\<close>

record indexState =
  Version :: int
  UpdatedAt :: string
  Collection :: string
  EmbeddingModel :: string
  EmbeddingDimension :: int
  ChunkSize :: int
  ChunkOverlap :: int
  IncludePatterns :: "string list"
  ExcludePatterns :: "string list"
  Files :: "(string \<times> int) list"

record IndexSummary =
  TotalFiles :: int
  IndexedFiles :: int
  UpdatedFiles :: int
  RemovedFiles :: int
  SkippedFiles :: int
  Chunks :: int

record IndexOptions =
  ReindexAll :: bool

section \<open>The indexer and its collaborators (pkg/rag)\<close>

text \<open>
  The fields of \<open>config.RagConfig\<close> that the indexer reads; the package \<open>config\<close> declares
  them. \<open>cfgDimension\<close> is \<open>cfg.Embedding.Dimension\<close>.
\<close>

record RagConfig =
  cfgVaultPath :: string
  cfgChunkSize :: int
  cfgChunkOverlap :: int
  cfgIncludePatterns :: "string list"
  cfgExcludePatterns :: "string list"
  cfgDimension :: int

text \<open>
  The two clients are the collaborators of the indexer; of each only what \<open>run\<close> reads is
  kept. \<open>NewEmbeddingClient\<close> sets a batch size of 16 where the configuration has none.
\<close>

record EmbeddingClient =
  model :: string
  batchSize :: int

record QdrantClient =
  collection :: string

definition NewEmbeddingClient :: "string \<Rightarrow> int \<Rightarrow> EmbeddingClient" where
  "NewEmbeddingClient cfgModel cfgBatchSize =
     \<lparr>model = cfgModel, batchSize = (if cfgBatchSize \<le> 0 then 16 else cfgBatchSize)\<rparr>"

record indexer =
  cfg :: RagConfig
  workspace :: string
  embedder :: EmbeddingClient
  qdrant :: QdrantClient

text \<open>
  A point of the vector store. The components of a vector are values of type \<open>'f\<close>: the
  indexer passes them on and never looks at them.
\<close>

record pointPayload =
  payloadPath :: string
  payloadHeading :: string
  payloadStartLine :: int
  payloadEndLine :: int
  payloadContent :: string
  payloadMTime :: int

record 'f QdrantPoint =
  ID :: string
  Vector :: "'f list"
  Payload :: pointPayload

text \<open>
  One call of the run to a collaborator or to the vault, with the answer it got. A run
  appends its calls to the trace of the world.
\<close>

datatype 'f event =
    EnsureCollectionCall int bool "error option"
  | DeleteByPathCall string "error option"
  | UpsertCall "'f QdrantPoint list" "error option"
  | EmbedBatchCall "string list" "error + 'f list list"
  | ReadFileCall string "error + string"

text \<open>
  The world of a run: the calls made so far, and the manifest file
  \<open>rag/index_state.json\<close> of the workspace, which is its bytes or the error of reading it.
\<close>

record 'f world =
  trace :: "'f event list"
  stateFile :: "error + string"

text \<open>
  What the run does not decide: the answers of the embedding service, of the vector store
  and of the file system, which may depend on the calls made before, and the library
  functions for JSON, SHA-1, the clock and paths.
\<close>

record 'f environment =
  embedBatch :: "'f event list \<Rightarrow> string list \<Rightarrow> error + 'f list list"
  ensureCollectionCall :: "'f event list \<Rightarrow> int \<Rightarrow> bool \<Rightarrow> error option"
  deleteByPath :: "'f event list \<Rightarrow> string \<Rightarrow> error option"
  upsert :: "'f event list \<Rightarrow> 'f QdrantPoint list \<Rightarrow> error option"
  readFile :: "'f event list \<Rightarrow> string \<Rightarrow> error + string"
  walkDir :: "string \<Rightarrow> walkEntry list"
  statIsDir :: "string \<Rightarrow> bool"
  userHomeDir :: string
  pathJoin :: "string \<Rightarrow> string \<Rightarrow> string"
  pathClean :: "string \<Rightarrow> string"
  jsonUnmarshal :: "string \<Rightarrow> error + indexState"
  jsonMarshal :: "indexState \<Rightarrow> error + string"
  mkdirAll :: "'f event list \<Rightarrow> error option"
  writeFile :: "'f event list \<Rightarrow> string \<Rightarrow> error option \<times> (error + string)"
  timeNow :: "'f event list \<Rightarrow> string"
  sha1Hex :: "string \<Rightarrow> string"

definition record_event :: "'f world \<Rightarrow> 'f event \<Rightarrow> 'f world" where
  "record_event w e = w\<lparr>trace := trace w @ [e]\<rparr>"

subsection \<open>Loading and saving the manifest\<close>

definition loadIndexState :: "'f environment \<Rightarrow> 'f world \<Rightarrow> error + indexState" where
  "loadIndexState env w =
     (case stateFile w of
        Inl err \<Rightarrow> Inl err
      | Inr data \<Rightarrow>
          (case jsonUnmarshal env data of
             Inl err \<Rightarrow> Inl err
           | Inr state \<Rightarrow> Inr state))"

text \<open>
  \<open>saveIndexState\<close>: a failed \<open>os.WriteFile\<close> may have truncated the file; the file system
  says what it left.
\<close>

definition saveIndexState :: "'f environment \<Rightarrow> 'f world \<Rightarrow> indexState \<Rightarrow> 'f world \<times> error option" where
  "saveIndexState env w state0 =
     (let state = state0\<lparr>UpdatedAt := timeNow env (trace w)\<rparr> in
      case jsonMarshal env state of
        Inl err \<Rightarrow> (w, Some err)
      | Inr data \<Rightarrow>
          (case mkdirAll env (trace w) of
             Some err \<Rightarrow> (w, Some err)
           | None \<Rightarrow>
               (case writeFile env (trace w) data of
                  (None, _) \<Rightarrow> (w\<lparr>stateFile := Inr data\<rparr>, None)
                | (Some err, left) \<Rightarrow> (w\<lparr>stateFile := left\<rparr>, Some err))))"

subsection \<open>The decision to rebuild everything\<close>

fun stringSliceLoop :: "string list \<Rightarrow> string list \<Rightarrow> bool" where
  "stringSliceLoop [] b = True"
| "stringSliceLoop (x # a) [] = False"
| "stringSliceLoop (x # a) (y # b) = (if x \<noteq> y then False else stringSliceLoop a b)"

definition stringSliceEqual :: "string list \<Rightarrow> string list \<Rightarrow> bool" where
  "stringSliceEqual a b = (if length a \<noteq> length b then False else stringSliceLoop a b)"

text \<open>Lines 399 to 418 of \<open>run\<close>: the value of \<open>reindexAll\<close> after them.\<close>

definition decideReindexAll :: "IndexOptions \<Rightarrow> indexState option \<Rightarrow> indexer \<Rightarrow> bool" where
  "decideReindexAll opts state i =
     (let reindexAll = ReindexAll opts;
          reindexAll = (if state = None then True else reindexAll)
      in case state of
           None \<Rightarrow> reindexAll
         | Some s \<Rightarrow>
             if \<not> reindexAll then
               let reindexAll = (if EmbeddingModel s \<noteq> model (embedder i) then True else reindexAll);
                   reindexAll = (if ChunkSize s \<noteq> cfgChunkSize (cfg i)
                                    \<or> ChunkOverlap s \<noteq> cfgChunkOverlap (cfg i)
                                 then True else reindexAll);
                   reindexAll = (if \<not> stringSliceEqual (IncludePatterns s) (cfgIncludePatterns (cfg i))
                                    \<or> \<not> stringSliceEqual (ExcludePatterns s) (cfgExcludePatterns (cfg i))
                                 then True else reindexAll);
                   reindexAll = (if Collection s \<noteq> collection (qdrant i) then True else reindexAll)
               in reindexAll
             else reindexAll)"

text \<open>Lines 558 to 563: the configuration stamped on the manifest before it is saved.\<close>

definition stampState :: "indexer \<Rightarrow> indexState \<Rightarrow> indexState" where
  "stampState i state =
     state\<lparr>Collection := collection (qdrant i),
           EmbeddingModel := model (embedder i),
           ChunkSize := cfgChunkSize (cfg i),
           ChunkOverlap := cfgChunkOverlap (cfg i),
           IncludePatterns := [] @ cfgIncludePatterns (cfg i),
           ExcludePatterns := [] @ cfgExcludePatterns (cfg i)\<rparr>"

subsection \<open>The steps of \<open>run\<close>\<close>

definition expandHome :: "'f environment \<Rightarrow> string \<Rightarrow> string" where
  "expandHome env path =
     (if path = [] then path
      else if hd path = CHR ''~'' then
        (if length path > 1 \<and> path ! 1 = slash then pathJoin env (userHomeDir env) (drop 2 path)
         else userHomeDir env)
      else path)"

text \<open>The closure \<open>ensureCollection\<close> of \<open>run\<close>.\<close>

definition ensureCollection ::
  "'f environment \<Rightarrow> indexer \<Rightarrow> bool \<Rightarrow> int \<Rightarrow> 'f world \<times> indexState
     \<Rightarrow> 'f world \<times> (error + indexState)" where
  "ensureCollection env i reindexAll dim ws =
     (case ws of (w, state) \<Rightarrow>
        if dim \<le> 0 then (w, Inl InvalidEmbeddingDimension)
        else
          let answer = ensureCollectionCall env (trace w) dim reindexAll;
              w' = record_event w (EnsureCollectionCall dim reindexAll answer)
          in case answer of
               Some err \<Rightarrow> (w', Inl err)
             | None \<Rightarrow> (w', Inr (state\<lparr>EmbeddingDimension := dim\<rparr>)))"

text \<open>\<open>currentFiles\<close>, filled in the order of the files.\<close>

fun currentFilesOf :: "fileEntry list \<Rightarrow> (string \<rightharpoonup> int) \<Rightarrow> (string \<rightharpoonup> int)" where
  "currentFilesOf [] m = m"
| "currentFilesOf (f # files) m = currentFilesOf files (m(RelPath f \<mapsto> MTime f))"

text \<open>
  The removal pass, \<open>for path := range state.Files\<close>, over the keys that the manifest has
  when the loop starts.
\<close>

fun removalPass ::
  "'f environment \<Rightarrow> (string \<rightharpoonup> int) \<Rightarrow> string list \<Rightarrow> 'f world \<times> indexState \<times> IndexSummary
     \<Rightarrow> 'f world \<times> (error + indexState \<times> IndexSummary)" where
  "removalPass env currentFiles [] (w, state, summary) = (w, Inr (state, summary))"
| "removalPass env currentFiles (path # paths) (w, state, summary) =
     (if currentFiles path = None then
        let answer = deleteByPath env (trace w) path;
            w' = record_event w (DeleteByPathCall path answer)
        in case answer of
             Some err \<Rightarrow> (w', Inl err)
           | None \<Rightarrow>
               removalPass env currentFiles paths
                 (w', state\<lparr>Files := AList.delete path (Files state)\<rparr>,
                  summary\<lparr>RemovedFiles := RemovedFiles summary + 1\<rparr>)
      else removalPass env currentFiles paths (w, state, summary))"

text \<open>\<open>fmt.Sprintf("%d", n)\<close>.\<close>

function showNat :: "nat \<Rightarrow> string" where
  "showNat n =
     (if n < 10 then [char_of (48 + n)] else showNat (n div 10) @ [char_of (48 + n mod 10)])"
  by pat_completeness auto
termination
  by (relation "measure id") auto

declare showNat.simps [simp del]

definition showInt :: "int \<Rightarrow> string" where
  "showInt n = (if n < 0 then CHR ''-'' # showNat (nat (- n)) else showNat (nat n))"

definition hashPointID :: "'f environment \<Rightarrow> string \<Rightarrow> int \<Rightarrow> int \<Rightarrow> string" where
  "hashPointID env path startLine endLine =
     sha1Hex env (path @ '':'' @ showInt startLine @ '':'' @ showInt endLine)"

text \<open>The points of one batch, \<open>for idx, ch := range batch\<close>.\<close>

fun pointsOf ::
  "'f environment \<Rightarrow> fileEntry \<Rightarrow> chunk list \<Rightarrow> 'f list list \<Rightarrow> 'f QdrantPoint list" where
  "pointsOf env file (ch # batch) (emb # embeddings) =
     \<lparr>ID = hashPointID env (RelPath file) (StartLine ch) (EndLine ch),
      Vector = emb,
      Payload = \<lparr>payloadPath = Path ch, payloadHeading = Heading ch,
                 payloadStartLine = StartLine ch, payloadEndLine = EndLine ch,
                 payloadContent = Content ch, payloadMTime = MTime file\<rparr>\<rparr>
     # pointsOf env file batch embeddings"
| "pointsOf env file batch embeddings = []"

text \<open>
  The block \<open>if state.EmbeddingDimension == 0 { ... }\<close> of a round of the batch loop: the
  dimension is read off the first vector, compared with the configured one, and the
  collection is ensured.
\<close>

definition resolveDimension ::
  "'f environment \<Rightarrow> indexer \<Rightarrow> bool \<Rightarrow> 'f list list \<Rightarrow> 'f world \<times> indexState
     \<Rightarrow> 'f world \<times> (error + indexState)" where
  "resolveDimension env i reindexAll embeddings ws =
     (case ws of (w, state) \<Rightarrow>
        if EmbeddingDimension state = 0 then
          let dimension = int (length (hd embeddings)) in
          if cfgDimension (cfg i) > 0 \<and> cfgDimension (cfg i) \<noteq> dimension
          then (w, Inl (EmbeddingDimensionMismatch dimension (cfgDimension (cfg i))))
          else ensureCollection env i reindexAll dimension (w, state)
        else (w, Inr state))"

text \<open>The rest of the round: the points of the batch are built, counted and upserted.\<close>

definition upsertBatch ::
  "'f environment \<Rightarrow> fileEntry \<Rightarrow> chunk list \<Rightarrow> 'f list list
     \<Rightarrow> 'f world \<times> indexState \<times> IndexSummary
     \<Rightarrow> 'f world \<times> (error + indexState \<times> IndexSummary)" where
  "upsertBatch env file batch embeddings wss =
     (case wss of (w, state, summary) \<Rightarrow>
        let points = pointsOf env file batch embeddings;
            summary' = summary\<lparr>Chunks := Chunks summary + int (length batch)\<rparr>;
            answer = upsert env (trace w) points;
            w' = record_event w (UpsertCall points answer)
        in case answer of
             Some err \<Rightarrow> (w', Inl err)
           | None \<Rightarrow> (w', Inr (state, summary')))"

text \<open>
  One round of the loop over the batches of a file, from the call of \<open>EmbedBatch\<close> to the
  call of \<open>Upsert\<close>.
\<close>

definition embedBatchStep ::
  "'f environment \<Rightarrow> indexer \<Rightarrow> bool \<Rightarrow> fileEntry \<Rightarrow> chunk list
     \<Rightarrow> 'f world \<times> indexState \<times> IndexSummary
     \<Rightarrow> 'f world \<times> (error + indexState \<times> IndexSummary)" where
  "embedBatchStep env i reindexAll file batch wss =
     (case wss of (w, state, summary) \<Rightarrow>
      let texts = map Content batch;
          answer = embedBatch env (trace w) texts;
          w1 = record_event w (EmbedBatchCall texts answer)
      in case answer of
           Inl err \<Rightarrow> (w1, Inl err)
         | Inr embeddings \<Rightarrow>
             if length embeddings \<noteq> length batch then (w1, Inl EmbeddingSizeMismatch)
             else
               (case resolveDimension env i reindexAll embeddings (w1, state) of
                  (w2, Inl err) \<Rightarrow> (w2, Inl err)
                | (w2, Inr state') \<Rightarrow> upsertBatch env file batch embeddings (w2, state', summary)))"

text \<open>
  The loop over the batches of one file, \<open>for start := 0; start < len(chunks); start +=
  batchSize\<close>. With a batch size that is not positive the loop does not come to an end
  (\<open>None\<close>); \<open>NewEmbeddingClient\<close> never gives one.
\<close>

function embedLoop ::
  "'f environment \<Rightarrow> indexer \<Rightarrow> bool \<Rightarrow> fileEntry \<Rightarrow> chunk list \<Rightarrow> nat
     \<Rightarrow> 'f world \<times> indexState \<times> IndexSummary
     \<Rightarrow> ('f world \<times> (error + indexState \<times> IndexSummary)) option" where
  "embedLoop env i reindexAll file chunks start wss =
     (if batchSize (embedder i) \<le> 0 then None
      else if start < length chunks then
        let end = (if start + nat (batchSize (embedder i)) > length chunks then length chunks
                   else start + nat (batchSize (embedder i)));
            batch = take (end - start) (drop start chunks)
        in case embedBatchStep env i reindexAll file batch wss of
             (w', Inl err) \<Rightarrow> Some (w', Inl err)
           | (w', Inr progress) \<Rightarrow>
               embedLoop env i reindexAll file chunks (start + nat (batchSize (embedder i)))
                 (w', progress)
      else Some (fst wss, Inr (snd wss)))"
  by pat_completeness auto
termination
  by (relation "measure (\<lambda>(env, i, reindexAll, file, chunks, start, wss). length chunks - start)")
     auto

declare embedLoop.simps [simp del]

text \<open>
  The body of the loop over the files, \<open>for _, file := range files\<close>, after the test for
  an unchanged file: the chunks of the file are deleted, embedded and upserted, and the
  file is counted and recorded. \<open>None\<close>: the batch loop does not return.
\<close>

definition indexChunks ::
  "'f environment \<Rightarrow> indexer \<Rightarrow> bool \<Rightarrow> fileEntry \<Rightarrow> chunk list
     \<Rightarrow> 'f world \<times> indexState \<times> IndexSummary
     \<Rightarrow> ('f world \<times> (error + indexState \<times> IndexSummary)) option" where
  "indexChunks env i reindexAll file chunks wss =
     (case wss of (w1, state, summary) \<Rightarrow>
      let mt = MTime file in
      if length chunks = 0 then
        Some (w1, Inr (state\<lparr>Files := AList.update (RelPath file) mt (Files state)\<rparr>, summary))
      else
        let answer = deleteByPath env (trace w1) (RelPath file);
            w2 = record_event w1 (DeleteByPathCall (RelPath file) answer)
        in case answer of
             Some err \<Rightarrow> Some (w2, Inl err)
           | None \<Rightarrow>
               (case embedLoop env i reindexAll file chunks 0 (w2, state, summary) of
                  None \<Rightarrow> None
                | Some (w3, Inl err) \<Rightarrow> Some (w3, Inl err)
                | Some (w3, Inr (state', summary')) \<Rightarrow>
                    let summary'' =
                          (if map_of (Files state') (RelPath file) \<noteq> None \<and> \<not> reindexAll
                           then summary'\<lparr>UpdatedFiles := UpdatedFiles summary' + 1\<rparr>
                           else summary'\<lparr>IndexedFiles := IndexedFiles summary' + 1\<rparr>)
                    in Some (w3, Inr (state'\<lparr>Files := AList.update (RelPath file) mt
                                                         (Files state')\<rparr>,
                                      summary''))))"

text \<open>
  The body of the loop over the files. \<open>None\<close>: the chunker or the batch loop does not
  return.
\<close>

definition indexFile ::
  "'f environment \<Rightarrow> indexer \<Rightarrow> bool \<Rightarrow> fileEntry \<Rightarrow> 'f world \<times> indexState \<times> IndexSummary
     \<Rightarrow> ('f world \<times> (error + indexState \<times> IndexSummary)) option" where
  "indexFile env i reindexAll file wss =
     (case wss of (w, state, summary) \<Rightarrow>
      let mt = MTime file in
      if \<not> reindexAll \<and> map_of (Files state) (RelPath file) = Some mt then
        Some (w, Inr (state, summary\<lparr>SkippedFiles := SkippedFiles summary + 1\<rparr>))
      else
        let answer = readFile env (trace w) (AbsPath file);
            w1 = record_event w (ReadFileCall (AbsPath file) answer)
        in case answer of
             Inl err \<Rightarrow> Some (w1, Inl (ReadFailed (AbsPath file) err))
           | Inr content \<Rightarrow>
               (case chunkMarkdown (RelPath file) content (cfgChunkSize (cfg i))
                       (cfgChunkOverlap (cfg i)) of
                  None \<Rightarrow> None
                | Some chunks \<Rightarrow> indexChunks env i reindexAll file chunks (w1, state, summary)))"

fun indexFiles ::
  "'f environment \<Rightarrow> indexer \<Rightarrow> bool \<Rightarrow> fileEntry list \<Rightarrow> 'f world \<times> indexState \<times> IndexSummary
     \<Rightarrow> ('f world \<times> (error + indexState \<times> IndexSummary)) option" where
  "indexFiles env i reindexAll [] (w, state, summary) = Some (w, Inr (state, summary))"
| "indexFiles env i reindexAll (file # files) (w, state, summary) =
     (case indexFile env i reindexAll file (w, state, summary) of
        None \<Rightarrow> None
      | Some (w', Inl err) \<Rightarrow> Some (w', Inl err)
      | Some (w', Inr (state', summary')) \<Rightarrow>
          indexFiles env i reindexAll files (w', state', summary'))"

definition newState :: indexState where
  "newState =
     \<lparr>Version = 1, UpdatedAt = [], Collection = [], EmbeddingModel = [],
      EmbeddingDimension = 0, ChunkSize = 0, ChunkOverlap = 0, IncludePatterns = [],
      ExcludePatterns = [], Files = []\<rparr>"

definition newSummary :: "fileEntry list \<Rightarrow> IndexSummary" where
  "newSummary files =
     \<lparr>TotalFiles = int (length files), IndexedFiles = 0, UpdatedFiles = 0, RemovedFiles = 0,
      SkippedFiles = 0, Chunks = 0\<rparr>"

subsection \<open>\<open>run\<close>\<close>

text \<open>
  Lines 437 to 457 of \<open>run\<close>: the dimension is taken from the manifest or else from the
  configuration, and the collection is ensured when the dimension is positive.
\<close>

definition ensureInitial ::
  "'f environment \<Rightarrow> indexer \<Rightarrow> bool \<Rightarrow> 'f world \<times> indexState
     \<Rightarrow> 'f world \<times> (error + indexState)" where
  "ensureInitial env i reindexAll ws =
     (case ws of (w, state) \<Rightarrow>
        let dimension = EmbeddingDimension state;
            dimension = (if dimension = 0 \<and> cfgDimension (cfg i) > 0
                         then cfgDimension (cfg i) else dimension)
        in if dimension > 0 then ensureCollection env i reindexAll dimension (w, state)
           else (w, Inr state))"

text \<open>
  Lines 425 to 473 of \<open>run\<close>, once the files are listed: the collection is ensured, the
  manifest is emptied for a rebuild, and the removal pass runs.
\<close>

definition prepareIndex ::
  "'f environment \<Rightarrow> indexer \<Rightarrow> bool \<Rightarrow> fileEntry list \<Rightarrow> indexState \<Rightarrow> 'f world
     \<Rightarrow> 'f world \<times> (error + indexState \<times> IndexSummary)" where
  "prepareIndex env i reindexAll files state w =
     (let currentFiles = currentFilesOf files Map.empty
      in case ensureInitial env i reindexAll (w, state) of
           (w1, Inl err) \<Rightarrow> (w1, Inl err)
         | (w1, Inr state1) \<Rightarrow>
             let summary = newSummary files;
                 state2 = (if reindexAll then state1\<lparr>Files := []\<rparr> else state1)
             in removalPass env currentFiles (map fst (Files state2)) (w1, state2, summary))"

text \<open>
  \<open>run\<close> up to the end of the removal pass (lines 387 to 473): the checks of the vault, the
  manifest and the decision to rebuild, the discovery of the files, and \<open>prepareIndex\<close>.
  It hands on the value of \<open>reindexAll\<close>, the files, the manifest and the summary.
\<close>

definition runSetup ::
  "'f environment \<Rightarrow> indexer \<Rightarrow> IndexOptions \<Rightarrow> 'f world
     \<Rightarrow> 'f world \<times> (error + bool \<times> fileEntry list \<times> indexState \<times> IndexSummary)" where
  "runSetup env i opts w =
     (let vaultPath = expandHome env (cfgVaultPath (cfg i)) in
      if vaultPath = [] then (w, Inl VaultPathRequired)
      else if \<not> statIsDir env vaultPath then (w, Inl (VaultPathNotFound vaultPath))
      else
        let loaded = (case loadIndexState env w of Inl err \<Rightarrow> None | Inr s \<Rightarrow> Some s);
            reindexAll = decideReindexAll opts loaded i
        in case listMarkdownFiles (walkDir env (pathClean env vaultPath))
                  (cfgIncludePatterns (cfg i)) (cfgExcludePatterns (cfg i)) of
             Inl err \<Rightarrow> (w, Inl err)
           | Inr files \<Rightarrow>
               (case prepareIndex env i reindexAll files
                       (case loaded of None \<Rightarrow> newState | Some s \<Rightarrow> s) w of
                  (w2, Inl err) \<Rightarrow> (w2, Inl err)
                | (w2, Inr (state3, summary1)) \<Rightarrow>
                    (w2, Inr (reindexAll, files, state3, summary1))))"

text \<open>\<open>run\<close>: the setup, the pass over the files, the stamp on the manifest and its saving.\<close>

definition run ::
  "'f environment \<Rightarrow> indexer \<Rightarrow> IndexOptions \<Rightarrow> 'f world
     \<Rightarrow> ('f world \<times> (error + IndexSummary)) option" where
  "run env i opts w =
     (case runSetup env i opts w of
        (w2, Inl err) \<Rightarrow> Some (w2, Inl err)
      | (w2, Inr (reindexAll, files, state3, summary1)) \<Rightarrow>
          (case indexFiles env i reindexAll files (w2, state3, summary1) of
             None \<Rightarrow> None
           | Some (w3, Inl err) \<Rightarrow> Some (w3, Inl err)
           | Some (w3, Inr (state4, summary2)) \<Rightarrow>
               (case saveIndexState env w3 (stampState i state4) of
                  (w4, Some err) \<Rightarrow> Some (w4, Inl err)
                | (w4, None) \<Rightarrow> Some (w4, Inr summary2))))"

section \<open>Vocabulary of the properties\<close>

text \<open>
  A chunk of a document: its lines are the lines \<open>StartLine\<close> to \<open>EndLine\<close> of the document
  (counted from 1), its content is their text, trimmed and not empty, and its heading is
  the heading of its first line, or the base name of the file without its extension where
  that line has none.
\<close>

definition chunkOK :: "string \<Rightarrow> string list \<Rightarrow> string list \<Rightarrow> chunk \<Rightarrow> bool" where
  "chunkOK path lines headings c \<longleftrightarrow>
     1 \<le> StartLine c \<and> StartLine c \<le> EndLine c \<and> EndLine c \<le> int (length lines) \<and>
     Path c = path \<and>
     Content c = TrimSpace (Join (take (nat (EndLine c - StartLine c + 1))
                                   (drop (nat (StartLine c - 1)) lines))) \<and>
     Content c \<noteq> [] \<and>
     Heading c = (let h = headings ! nat (StartLine c - 1)
                  in if h = [] then TrimSuffix (Base path) (Ext path) else h)"




definition markdownEntry :: "string \<Rightarrow> string \<Rightarrow> int \<Rightarrow> walkEntry" where
  "markdownEntry path rel mtime =
     \<lparr>WalkPath = path, WalkErr = None, IsDir = False, RelResult = Inr rel,
      InfoResult = Inr mtime\<rparr>"

text \<open>
  A failed call to the embedding service or to the vector store. A list of calls is calm
  when none of them failed.
\<close>

fun failedCall :: "'f event \<Rightarrow> bool" where
  "failedCall (EnsureCollectionCall dim recreate answer) = (answer \<noteq> None)"
| "failedCall (DeleteByPathCall path answer) = (answer \<noteq> None)"
| "failedCall (UpsertCall points answer) = (answer \<noteq> None)"
| "failedCall (EmbedBatchCall texts answer) = (case answer of Inl err \<Rightarrow> True | Inr vs \<Rightarrow> False)"
| "failedCall (ReadFileCall path answer) = False"

definition calm :: "'f event list \<Rightarrow> bool" where
  "calm es = (\<forall>e \<in> set es. \<not> failedCall e)"

text \<open>
  A stage of the run from world \<open>w\<close> to world \<open>w'\<close> that leaves the manifest file alone and
  only adds calls, none of them failed, but for the last one when the stage ends in an
  error (\<open>ok\<close> is false).
\<close>

definition stage :: "'f world \<Rightarrow> 'f world \<Rightarrow> bool \<Rightarrow> bool" where
  "stage w w' ok \<longleftrightarrow>
     stateFile w' = stateFile w \<and>
     (\<exists>new. trace w' = trace w @ new \<and> calm (if ok then new else butlast new))"

text \<open>The paths of the delete-by-path calls in a list of calls, in their order.\<close>

fun deletedPaths :: "'f event list \<Rightarrow> string list" where
  "deletedPaths [] = []"
| "deletedPaths (DeleteByPathCall path answer # es) = path # deletedPaths es"
| "deletedPaths (e # es) = deletedPaths es"

text \<open>A file whose time of modification is the one that the manifest records.\<close>

definition unchangedFile :: "indexState \<Rightarrow> fileEntry \<Rightarrow> bool" where
  "unchangedFile state file \<longleftrightarrow> map_of (Files state) (RelPath file) = Some (MTime file)"

text \<open>Sample collaborators and a sample indexer, for runs on concrete inputs.\<close>

definition sampleWalk :: "walkEntry list" where
  "sampleWalk =
     [\<lparr>WalkPath = ''/vault'', WalkErr = None, IsDir = True, RelResult = Inr ''.'',
       InfoResult = Inr 0\<rparr>,
      markdownEntry ''/vault/a.md'' ''a.md'' 7,
      markdownEntry ''/vault/b.md'' ''b.md'' 9]"

definition sampleManifest :: indexState where
  "sampleManifest =
     \<lparr>Version = 1, UpdatedAt = ''2024-01-01T00:00:00Z'', Collection = ''notes'',
      EmbeddingModel = ''m'', EmbeddingDimension = 2, ChunkSize = 800, ChunkOverlap = 0,
      IncludePatterns = [], ExcludePatterns = [],
      Files = [(''a.md'', 7), (''b.md'', 8), (''old.md'', 5)]\<rparr>"

definition sampleEnv :: "(string list \<Rightarrow> error + nat list list) \<Rightarrow> nat environment" where
  "sampleEnv answers =
     \<lparr>embedBatch = (\<lambda>tr texts. answers texts),
      ensureCollectionCall = (\<lambda>tr dim recreate. None),
      deleteByPath = (\<lambda>tr path. None),
      upsert = (\<lambda>tr points. None),
      readFile = (\<lambda>tr path. if path = ''/vault/a.md'' then Inr ''alpha\<newline>beta''
                             else if path = ''/vault/b.md'' then Inr ''# B\<newline>world''
                             else Inl (External ''no such file'')),
      walkDir = (\<lambda>root. sampleWalk),
      statIsDir = (\<lambda>path. True),
      userHomeDir = ''/home/u'',
      pathJoin = (\<lambda>a b. a @ ''/'' @ b),
      pathClean = (\<lambda>p. p),
      jsonUnmarshal = (\<lambda>data. if data = ''manifest'' then Inr sampleManifest
                               else Inl (External ''bad json'')),
      jsonMarshal = (\<lambda>state. Inr (''saved:'' @ concat (map fst (Files state)))),
      mkdirAll = (\<lambda>tr. None),
      writeFile = (\<lambda>tr data. (None, Inr data)),
      timeNow = (\<lambda>tr. ''2024-02-02T00:00:00Z''),
      sha1Hex = (\<lambda>s. s)\<rparr>"

definition sampleIndexer :: "int \<Rightarrow> indexer" where
  "sampleIndexer dimension =
     \<lparr>cfg = \<lparr>cfgVaultPath = ''/vault'', cfgChunkSize = 800, cfgChunkOverlap = 0,
             cfgIncludePatterns = [], cfgExcludePatterns = [], cfgDimension = dimension\<rparr>,
      workspace = ''/ws'',
      embedder = NewEmbeddingClient ''m'' 0,
      qdrant = \<lparr>collection = ''notes''\<rparr>\<rparr>"

text \<open>
  The summary with \<open>n\<close> more skipped files, and the result of a pass with \<open>n\<close> more
  skipped files in its summary.
\<close>

definition moreSkipped :: "int \<Rightarrow> IndexSummary \<Rightarrow> IndexSummary" where
  "moreSkipped n summary = summary\<lparr>SkippedFiles := SkippedFiles summary + n\<rparr>"

definition withSkipped ::
  "int \<Rightarrow> 'f world \<times> (error + indexState \<times> IndexSummary)
     \<Rightarrow> 'f world \<times> (error + indexState \<times> IndexSummary)" where
  "withSkipped n out =
     (case out of
        (w, Inl err) \<Rightarrow> (w, Inl err)
      | (w, Inr (state, summary)) \<Rightarrow> (w, Inr (state, moreSkipped n summary)))"

text \<open>
  The calls that the run added between world \<open>w\<close> and world \<open>w'\<close>. A stage adds only calls
  that satisfy \<open>Q\<close>; \<open>deletesIn S\<close> is satisfied by every call but a delete-by-path for a
  path outside \<open>S\<close>.
\<close>

definition added :: "'f world \<Rightarrow> 'f world \<Rightarrow> 'f event list" where
  "added w w' = drop (length (trace w)) (trace w')"

definition adds :: "('f event \<Rightarrow> bool) \<Rightarrow> 'f world \<Rightarrow> 'f world \<Rightarrow> bool" where
  "adds Q w w' \<longleftrightarrow> (\<exists>new. trace w' = trace w @ new \<and> (\<forall>e \<in> set new. Q e))"

fun deletesIn :: "string set \<Rightarrow> 'f event \<Rightarrow> bool" where
  "deletesIn S (DeleteByPathCall path answer) = (path \<in> S)"
| "deletesIn S e = True"

section \<open>Properties of the trigger decision\<close>

lemma matchPrefix_find:
  "matchPrefix s ps =
     (case List.find (\<lambda>p. p \<noteq> [] \<and> HasPrefix s p) ps of Some p \<Rightarrow> (p, True) | None \<Rightarrow> ([], False))"
  by (induction ps) auto

lemma matchKeywordLoop_find:
  "matchKeywordLoop toLower lower ks =
     (case List.find (\<lambda>k. k \<noteq> [] \<and> Contains lower (toLower k)) ks of Some k \<Rightarrow> k | None \<Rightarrow> [])"
  by (induction ks) auto

lemma matchKeyword_find:
  "matchKeyword toLower m ks =
     (case List.find (\<lambda>k. k \<noteq> [] \<and> Contains (toLower m) (toLower k)) ks of Some k \<Rightarrow> k | None \<Rightarrow> [])"
  by (cases ks) (simp_all add: matchKeyword_def matchKeywordLoop_find)

lemma find_keyword_nonempty:
  "(case List.find (\<lambda>k. k \<noteq> [] \<and> Q k) ks of Some k \<Rightarrow> k | None \<Rightarrow> []) \<noteq> []
     \<longleftrightarrow> List.find (\<lambda>k. k \<noteq> [] \<and> Q k) ks \<noteq> None"
  by (induction ks) auto

lemma HasPrefix_nonempty: "p \<noteq> [] \<Longrightarrow> HasPrefix t p \<Longrightarrow> t \<noteq> []"
  by (auto simp: HasPrefix_def)

lemma find_prefix_None:
  "List.find (\<lambda>p. p \<noteq> [] \<and> HasPrefix t p) ps = None
     \<longleftrightarrow> \<not> (\<exists>p \<in> set ps. p \<noteq> [] \<and> HasPrefix t p)"
  by (auto simp: find_None_iff)

lemma DecideTrigger_forced:
  assumes "List.find (\<lambda>p. p \<noteq> [] \<and> HasPrefix (TrimSpace message) p) (ForcePrefixes tcfg) = Some p"
  shows "DecideTrigger toLower message tcfg =
     \<lparr>CleanedMessage = TrimSpace (TrimPrefix (TrimSpace message) p), ShouldSearch = True,
      Forced = True, Skipped = False, MatchedKeyword = []\<rparr>"
proof -
  from assms have "p \<noteq> [] \<and> HasPrefix (TrimSpace message) p"
    by (auto simp: find_Some_iff)
  then have "TrimSpace message \<noteq> []" by (auto dest: HasPrefix_nonempty)
  with assms show ?thesis
    by (simp add: DecideTrigger_def matchPrefix_find)
qed

lemma DecideTrigger_skipped:
  assumes "List.find (\<lambda>p. p \<noteq> [] \<and> HasPrefix (TrimSpace message) p) (ForcePrefixes tcfg) = None"
    and "List.find (\<lambda>p. p \<noteq> [] \<and> HasPrefix (TrimSpace message) p) (SkipPrefixes tcfg) = Some p"
  shows "DecideTrigger toLower message tcfg =
     \<lparr>CleanedMessage = TrimSpace (TrimPrefix (TrimSpace message) p), ShouldSearch = False,
      Forced = False, Skipped = True, MatchedKeyword = []\<rparr>"
proof -
  from assms(2) have "p \<noteq> [] \<and> HasPrefix (TrimSpace message) p"
    by (auto simp: find_Some_iff)
  then have "TrimSpace message \<noteq> []" by (auto dest: HasPrefix_nonempty)
  with assms show ?thesis
    by (simp add: DecideTrigger_def matchPrefix_find)
qed

lemma DecideTrigger_auto:
  assumes "List.find (\<lambda>p. p \<noteq> [] \<and> HasPrefix (TrimSpace message) p) (ForcePrefixes tcfg) = None"
    and "List.find (\<lambda>p. p \<noteq> [] \<and> HasPrefix (TrimSpace message) p) (SkipPrefixes tcfg) = None"
  shows "DecideTrigger toLower message tcfg =
     (if TrimSpace message \<noteq> [] \<and> Auto tcfg then
        (case List.find (\<lambda>k. k \<noteq> [] \<and> Contains (toLower (TrimSpace message)) (toLower k))
                (AutoKeywords tcfg) of
           Some k \<Rightarrow> \<lparr>CleanedMessage = TrimSpace message, ShouldSearch = True, Forced = False,
                      Skipped = False, MatchedKeyword = k\<rparr>
         | None \<Rightarrow> noDecision (TrimSpace message))
      else noDecision (if TrimSpace message = [] then message else TrimSpace message))"
proof (cases "List.find (\<lambda>k. k \<noteq> [] \<and> Contains (toLower (TrimSpace message)) (toLower k))
                (AutoKeywords tcfg)")
  case None
  with assms show ?thesis
    by (simp add: DecideTrigger_def matchPrefix_find matchKeyword_find)
next
  case (Some k)
  then have "k \<noteq> []" by (auto simp: find_Some_iff)
  with Some assms show ?thesis
    by (simp add: DecideTrigger_def matchPrefix_find matchKeyword_find)
qed


text \<open>
  Claim C3. A message matches a prefix when its trimmed text starts with that prefix and
  the prefix is not empty. A message that matches a force prefix is a forced search,
  whatever the skip prefixes and keywords are; one that matches a skip prefix and no force
  prefix is skipped, whatever the keywords are; otherwise the first matching keyword
  decides. Within a list the first entry that matches is the one used.
\<close>

theorem DecideTrigger_priority:
  "let t = TrimSpace message;
       d = DecideTrigger toLower message tcfg;
       force = List.find (\<lambda>p. p \<noteq> [] \<and> HasPrefix t p) (ForcePrefixes tcfg);
       skip = List.find (\<lambda>p. p \<noteq> [] \<and> HasPrefix t p) (SkipPrefixes tcfg);
       keyword = List.find (\<lambda>k. k \<noteq> [] \<and> Contains (toLower t) (toLower k)) (AutoKeywords tcfg)
   in ((\<exists>p \<in> set (ForcePrefixes tcfg). p \<noteq> [] \<and> HasPrefix t p) \<longrightarrow>
          ShouldSearch d \<and> Forced d \<and> \<not> Skipped d \<and> MatchedKeyword d = [] \<and>
          (\<exists>p. force = Some p \<and> CleanedMessage d = TrimSpace (TrimPrefix t p)))
    \<and> (\<not> (\<exists>p \<in> set (ForcePrefixes tcfg). p \<noteq> [] \<and> HasPrefix t p) \<and>
        (\<exists>p \<in> set (SkipPrefixes tcfg). p \<noteq> [] \<and> HasPrefix t p) \<longrightarrow>
          \<not> ShouldSearch d \<and> \<not> Forced d \<and> Skipped d \<and> MatchedKeyword d = [] \<and>
          (\<exists>p. skip = Some p \<and> CleanedMessage d = TrimSpace (TrimPrefix t p)))
    \<and> (\<not> (\<exists>p \<in> set (ForcePrefixes tcfg). p \<noteq> [] \<and> HasPrefix t p) \<and>
        \<not> (\<exists>p \<in> set (SkipPrefixes tcfg). p \<noteq> [] \<and> HasPrefix t p) \<longrightarrow>
          \<not> Forced d \<and> \<not> Skipped d \<and>
          ShouldSearch d = (t \<noteq> [] \<and> Auto tcfg \<and> keyword \<noteq> None) \<and>
          MatchedKeyword d =
            (if t \<noteq> [] \<and> Auto tcfg then (case keyword of Some k \<Rightarrow> k | None \<Rightarrow> []) else []))"
proof -
  define t where "t = TrimSpace message"
  define d where "d = DecideTrigger toLower message tcfg"
  define force where "force = List.find (\<lambda>p. p \<noteq> [] \<and> HasPrefix t p) (ForcePrefixes tcfg)"
  define skip where "skip = List.find (\<lambda>p. p \<noteq> [] \<and> HasPrefix t p) (SkipPrefixes tcfg)"
  define keyword where
    "keyword = List.find (\<lambda>k. k \<noteq> [] \<and> Contains (toLower t) (toLower k)) (AutoKeywords tcfg)"
  have fN: "(\<exists>p \<in> set (ForcePrefixes tcfg). p \<noteq> [] \<and> HasPrefix t p) \<longleftrightarrow> force \<noteq> None"
    unfolding force_def find_prefix_None by simp
  have sN: "(\<exists>p \<in> set (SkipPrefixes tcfg). p \<noteq> [] \<and> HasPrefix t p) \<longleftrightarrow> skip \<noteq> None"
    unfolding skip_def find_prefix_None by simp
  have A: "ShouldSearch d \<and> Forced d \<and> \<not> Skipped d \<and> MatchedKeyword d = [] \<and>
          (\<exists>p. force = Some p \<and> CleanedMessage d = TrimSpace (TrimPrefix t p))"
    if "force \<noteq> None"
  proof -
    from that obtain p where p: "force = Some p" by auto
    show ?thesis
      using DecideTrigger_forced [OF p [unfolded force_def t_def], of toLower] p
      by (simp add: d_def t_def)
  qed
  have B: "\<not> ShouldSearch d \<and> \<not> Forced d \<and> Skipped d \<and> MatchedKeyword d = [] \<and>
          (\<exists>p. skip = Some p \<and> CleanedMessage d = TrimSpace (TrimPrefix t p))"
    if "force = None" "skip \<noteq> None"
  proof -
    from that obtain p where p: "skip = Some p" by auto
    show ?thesis
      using DecideTrigger_skipped [OF that(1) [unfolded force_def t_def] p [unfolded skip_def t_def],
          of toLower] p
      by (simp add: d_def t_def)
  qed
  have C: "\<not> Forced d \<and> \<not> Skipped d \<and>
          ShouldSearch d = (t \<noteq> [] \<and> Auto tcfg \<and> keyword \<noteq> None) \<and>
          MatchedKeyword d =
            (if t \<noteq> [] \<and> Auto tcfg then (case keyword of Some k \<Rightarrow> k | None \<Rightarrow> []) else [])"
    if "force = None" "skip = None"
    unfolding d_def
      DecideTrigger_auto [OF that(1) [unfolded force_def t_def] that(2) [unfolded skip_def t_def]]
    by (simp add: t_def [symmetric] keyword_def [symmetric] noDecision_def split: option.splits)
  show ?thesis
    unfolding Let_def t_def [symmetric] d_def [symmetric] force_def [symmetric]
      skip_def [symmetric] keyword_def [symmetric] fN sN
    using A B C by blast
qed

theorem DecideTrigger_priority_witness:
  "(let d = DecideTrigger asciiToLower ''/search tell me about X''
         \<lparr>ForcePrefixes = [''/search''], SkipPrefixes = [''/search'', ''/nosearch''],
          Auto = True, AutoKeywords = [''TELL'']\<rparr>
    in ShouldSearch d \<and> Forced d \<and> \<not> Skipped d \<and> CleanedMessage d = ''tell me about X'')
   \<and> (let d = DecideTrigger asciiToLower ''/nosearch tell me about X''
         \<lparr>ForcePrefixes = [''/search''], SkipPrefixes = [''/search'', ''/nosearch''],
          Auto = True, AutoKeywords = [''TELL'']\<rparr>
    in \<not> ShouldSearch d \<and> \<not> Forced d \<and> Skipped d \<and> CleanedMessage d = ''tell me about X'')
   \<and> (let d = DecideTrigger asciiToLower '' Tell me about X''
         \<lparr>ForcePrefixes = [''/search''], SkipPrefixes = [''/search'', ''/nosearch''],
          Auto = True, AutoKeywords = [''about'', ''TELL'']\<rparr>
    in ShouldSearch d \<and> \<not> Forced d \<and> \<not> Skipped d \<and> MatchedKeyword d = ''about'')"
proof -
  have ts: "TrimSpace ''/search tell me about X'' = ''/search tell me about X''"
      "TrimSpace ''/nosearch tell me about X'' = ''/nosearch tell me about X''"
      "TrimSpace '' Tell me about X'' = ''Tell me about X''"
      "TrimSpace '' tell me about X'' = ''tell me about X''"
    by code_simp+
  have lw: "asciiToLower ''Tell me about X'' = ''tell me about x''"
     "asciiToLower ''about'' = ''about''"
    by code_simp+
  have ct: "Contains ''tell me about x'' ''about''"
    by code_simp
  note inst = DecideTrigger_priority [where toLower = asciiToLower and tcfg =
      "\<lparr>ForcePrefixes = [''/search''], SkipPrefixes = [''/search'', ''/nosearch''],
          Auto = True, AutoKeywords = [''TELL'']\<rparr>"]
  show ?thesis
    using inst [where message = "''/search tell me about X''"]
      inst [where message = "''/nosearch tell me about X''"]
      DecideTrigger_priority [where toLower = asciiToLower and message = "'' Tell me about X''" and tcfg =
      "\<lparr>ForcePrefixes = [''/search''], SkipPrefixes = [''/search'', ''/nosearch''],
          Auto = True, AutoKeywords = [''about'', ''TELL'']\<rparr>"]
    by (simp add: Let_def ts HasPrefix_def TrimPrefix_def lw ct)
qed

text \<open>
  Claim C10. Every decision satisfies: not both forced and skipped; forced implies a
  search; skipped implies no search; a matched keyword implies a search; no keyword is
  reported for a forced or a skipped message.
\<close>

theorem DecideTrigger_invariants:
  "let d = DecideTrigger toLower message tcfg in
     \<not> (Forced d \<and> Skipped d) \<and> (Forced d \<longrightarrow> ShouldSearch d) \<and>
     (Skipped d \<longrightarrow> \<not> ShouldSearch d) \<and> (MatchedKeyword d \<noteq> [] \<longrightarrow> ShouldSearch d) \<and>
     (Forced d \<or> Skipped d \<longrightarrow> MatchedKeyword d = [])"
  by (simp add: DecideTrigger_def noDecision_def Let_def split: prod.splits)

theorem DecideTrigger_invariants_witness:
  "(let d = DecideTrigger asciiToLower ''/search tell me about X''
         \<lparr>ForcePrefixes = [''/search''], SkipPrefixes = [''/nosearch''],
          Auto = True, AutoKeywords = [''about'']\<rparr>
    in Forced d \<and> ShouldSearch d \<and> \<not> Skipped d \<and> MatchedKeyword d = [])
   \<and> (let d = DecideTrigger asciiToLower ''/nosearch tell me about X''
         \<lparr>ForcePrefixes = [''/search''], SkipPrefixes = [''/nosearch''],
          Auto = True, AutoKeywords = [''about'']\<rparr>
    in Skipped d \<and> \<not> ShouldSearch d \<and> \<not> Forced d \<and> MatchedKeyword d = [])
   \<and> (let d = DecideTrigger asciiToLower ''tell me about X''
         \<lparr>ForcePrefixes = [''/search''], SkipPrefixes = [''/nosearch''],
          Auto = True, AutoKeywords = [''about'']\<rparr>
    in MatchedKeyword d = ''about'' \<and> ShouldSearch d \<and> \<not> Forced d \<and> \<not> Skipped d)"
proof -
  have ts: "TrimSpace ''/search tell me about X'' = ''/search tell me about X''"
      "TrimSpace ''/nosearch tell me about X'' = ''/nosearch tell me about X''"
      "TrimSpace ''tell me about X'' = ''tell me about X''"
    by code_simp+
  have lw: "asciiToLower ''tell me about X'' = ''tell me about x''"
     "asciiToLower ''about'' = ''about''"
    by code_simp+
  have ct: "Contains ''tell me about x'' ''about''"
    by code_simp
  note inst = DecideTrigger_invariants [where toLower = asciiToLower and tcfg =
      "\<lparr>ForcePrefixes = [''/search''], SkipPrefixes = [''/nosearch''],
          Auto = True, AutoKeywords = [''about'']\<rparr>"]
  show ?thesis
    using inst [where message = "''/search tell me about X''"]
      inst [where message = "''/nosearch tell me about X''"]
      inst [where message = "''tell me about X''"]
    by (simp add: Let_def DecideTrigger_def noDecision_def matchKeyword_def ts lw ct
        HasPrefix_def TrimPrefix_def)
qed

section \<open>Properties of the chunker\<close>

lemma fillChunk_first:
  "i < length lines \<Longrightarrow>
     fillChunk lines cs i 0 = fillChunk lines cs (i + 1) (int (length (lines ! i)) + 1)"
  by (subst fillChunk.simps) (simp add: Let_def)

lemma fillChunk_stop:
  "i < length lines \<Longrightarrow> cc > 0 \<Longrightarrow> cc + (int (length (lines ! i)) + 1) > cs \<Longrightarrow>
     fillChunk lines cs i cc = i"
  by (subst fillChunk.simps) (simp add: Let_def)

lemma walkBack_le: "walkBack lines co start j oc \<le> j"
proof (induction lines co start j oc rule: walkBack.induct)
  case (1 lines co start j oc)
  show ?case
    using 1 by (subst walkBack.simps) (auto simp: Let_def)
qed

lemma overlapStart_single: "0 < co \<Longrightarrow> overlapStart lines co i (Suc i) = i"
  using walkBack_le [of lines co "int i" "int i" 0]
  by (auto simp: overlapStart_def Let_def)

text \<open>A chunk of one line that is not the last: the scan position comes back to its start.\<close>

lemma chunkLoop_stuck:
  assumes "i + 1 < length lines" and "0 < co"
    and "int (length (lines ! i)) + 1 + (int (length (lines ! (i + 1))) + 1) > cs"
  shows "chunkLoop path lines headings cs co i chunks = None"
proof (rule ccontr)
  assume "chunkLoop path lines headings cs co i chunks \<noteq> None"
  then obtain y where y: "chunkLoop path lines headings cs co i chunks = Some y" by auto
  let ?P = "\<lambda>(p :: string) ls (hs :: string list) cs' co' i' (cks :: chunk list) (y :: chunk list).
     \<not> (ls = lines \<and> cs' = cs \<and> co' = co \<and> i' = i)"
  have i1: "fillChunk lines cs i 0 = i + 1"
    using assms by (simp add: fillChunk_first fillChunk_stop)
  have "?P path lines headings cs co i chunks y"
  proof (rule chunkLoop.raw_induct [where P = ?P, OF _ y], goal_cases)
    case (1 loop p ls hs cs' co' i' cks y')
    show ?case
    proof
      assume eq: "ls = lines \<and> cs' = cs \<and> co' = co \<and> i' = i"
      with 1(2) assms i1 obtain cks' where "loop p lines hs cs co i cks' = Some y'"
        by (auto simp: Let_def overlapStart_single split: if_splits)
      with 1(1) show False by blast
    qed
  qed
  then show False by simp
qed

text \<open>
  Claim C1 says that the chunking operation returns for every input. With a chunk size
  of 2 and an overlap of 1 the two-line text \<open>a\<close>, \<open>b\<close> closes a chunk on its first line,
  the walk back returns to that line, and the loop starts the same chunk again, for ever.
\<close>

theorem chunkMarkdown_never_returns: "chunkMarkdown ''a.md'' ''a\<newline>b'' 2 1 = None"
proof -
  have s: "Split ''a\<newline>b'' = [''a'', ''b'']" by code_simp
  show ?thesis
    unfolding chunkMarkdown_def Let_def s
    by (rule chunkLoop_stuck) simp_all
qed

subsection \<open>Headings\<close>

lemma clearDeeper_eq:
  "clearDeeper j stack = take j stack @ replicate (length stack - j) []"
proof (induction j stack rule: clearDeeper.induct)
  case (1 j stack)
  show ?case
  proof (cases "j < length stack")
    case False
    then show ?thesis by (subst clearDeeper.simps) simp
  next
    case True
    have "clearDeeper j stack = clearDeeper (j + 1) (stack[j := []])"
      using True by (subst clearDeeper.simps) simp
    also have "\<dots> = take (j + 1) (stack[j := []]) @ replicate (length stack - (j + 1)) []"
      using 1 [OF True] by simp
    also have "take (j + 1) (stack[j := []]) = take j stack @ [[]]"
      using True by (simp add: take_Suc_conv_app_nth)
    also have "(take j stack @ [[]]) @ replicate (length stack - (j + 1)) []
        = take j stack @ replicate (length stack - j) []"
      using True by (simp add: replicate_Suc [symmetric] Suc_diff_Suc del: replicate_Suc)
    finally show ?thesis .
  qed
qed

lemma countHashes_replicate:
  "rest = [] \<or> hd rest \<noteq> CHR ''#'' \<Longrightarrow> countHashes (replicate n (CHR ''#'') @ rest) = n"
  by (cases rest) (auto simp: countHashes_def takeWhile_append takeWhile_eq_all_conv [THEN iffD2])



lemma fillChunk_ge: "i \<le> fillChunk lines cs i cc"
proof (induction lines cs i cc rule: fillChunk.induct)
  case (1 lines cs i cc)
  show ?case
  proof (cases "i < length lines")
    case False
    then show ?thesis by (subst fillChunk.simps) simp
  next
    case True
    show ?thesis
    proof (cases "cc > 0 \<and> cc + (int (length (lines ! i)) + 1) > cs")
      case stop: True
      with True show ?thesis by (subst fillChunk.simps) (simp add: Let_def)
    next
      case False
      with True 1 [OF True refl False] show ?thesis
        by (subst fillChunk.simps) (auto simp: Let_def)
    qed
  qed
qed

lemma fillChunk_le: "i \<le> length lines \<Longrightarrow> fillChunk lines cs i cc \<le> length lines"
proof (induction lines cs i cc rule: fillChunk.induct)
  case (1 lines cs i cc)
  show ?case
  proof (cases "i < length lines")
    case False
    with "1.prems" show ?thesis by (subst fillChunk.simps) simp
  next
    case True
    show ?thesis
    proof (cases "cc > 0 \<and> cc + (int (length (lines ! i)) + 1) > cs")
      case stop: True
      with True show ?thesis by (subst fillChunk.simps) (simp add: Let_def)
    next
      case False
      with True 1(1) [OF True refl False] show ?thesis
        by (subst fillChunk.simps) (auto simp: Let_def)
    qed
  qed
qed

text \<open>The inner loop takes the first line of a chunk whatever its length.\<close>

lemma fillChunk_takes:
  assumes "i < length lines"
  shows "i < fillChunk lines cs i 0" and "fillChunk lines cs i 0 \<le> length lines"
proof -
  from fillChunk_ge [of "i + 1" lines cs "int (length (lines ! i)) + 1"] assms
  show "i < fillChunk lines cs i 0" by (simp add: fillChunk_first)
  from assms show "fillChunk lines cs i 0 \<le> length lines" by (simp add: fillChunk_le)
qed

lemma appendChunk_chunkOK:
  assumes "start < i1" and "i1 \<le> length lines"
    and "\<forall>c \<in> set chunks. chunkOK path lines headings c"
  shows "\<forall>c \<in> set (appendChunk path lines headings start i1 chunks). chunkOK path lines headings c"
proof -
  have "nat (int i1 - 1 + 1 - (int start + 1) + 1) = i1 - start"
    using assms(1) by simp
  with assms show ?thesis
    by (auto simp: appendChunk_def chunkOK_def Let_def)
qed

lemma chunkLoop_chunkOK:
  assumes "chunkLoop path lines headings cs co i chunks = Some y"
    and "\<forall>c \<in> set chunks. chunkOK path lines headings c"
  shows "\<forall>c \<in> set y. chunkOK path lines headings c"
proof -
  let ?P = "\<lambda>path lines headings (cs :: int) (co :: int) (i :: nat) chunks y.
     (\<forall>c \<in> set chunks. chunkOK path lines headings c) \<longrightarrow>
     (\<forall>c \<in> set y. chunkOK path lines headings c)"
  have "?P path lines headings cs co i chunks y"
  proof (rule chunkLoop.raw_induct [where P = ?P, OF _ assms(1)], goal_cases)
    case (1 loop path lines headings cs co i chunks y)
    show ?case
    proof (cases "i < length lines")
      case False
      with 1(2) show ?thesis by simp
    next
      case True
      note ok = appendChunk_chunkOK [OF fillChunk_takes [OF True, of cs], of chunks path headings]
      from 1(2) True show ?thesis
        using 1(1) ok by (auto simp: Let_def split: if_splits)
    qed
  qed
  with assms(2) show ?thesis by simp
qed

text \<open>The heading of a line is the stack after that line, joined.\<close>

lemma headingsLoop_length: "length (headingsLoop stack lines) = length lines"
  by (induction lines arbitrary: stack) (simp_all add: Let_def)

lemma headingsLoop_nth:
  "k < length lines \<Longrightarrow>
     headingsLoop stack lines ! k = joinHeading (foldl updateStack stack (take (Suc k) lines))"
proof (induction lines arbitrary: stack k)
  case Nil
  then show ?case by simp
next
  case (Cons line lines)
  then show ?case by (cases k) (simp_all add: Let_def)
qed

lemma updateStack_length: "length (updateStack stack line) = length stack"
  by (auto simp: updateStack_def Let_def clearDeeper_eq)

lemma HasPrefix_hash: "HasPrefix s ''#'' \<longleftrightarrow> 0 < countHashes s"
  by (cases s) (auto simp: HasPrefix_def countHashes_def)

lemma updateStack_eq:
  assumes "length stack = 6"
  shows "updateStack stack line
    = (let trimmed = TrimSpace line;
           level = countHashes trimmed;
           title = TrimSpace (drop level trimmed)
       in if 1 \<le> level \<and> level \<le> 6 \<and> title \<noteq> []
          then take (level - 1) stack @ title # replicate (6 - level) []
          else stack)"
proof -
  define level where "level = countHashes (TrimSpace line)"
  define title where "title = TrimSpace (drop level (TrimSpace line))"
  show ?thesis
  proof (cases "1 \<le> level \<and> level \<le> 6 \<and> title \<noteq> []")
    case False
    then show ?thesis
      by (auto simp: updateStack_def Let_def HasPrefix_hash level_def title_def)
  next
    case True
    then have "take level (stack[level - 1 := title]) = take (level - 1) stack @ [title]"
      using assms by (cases level) (auto simp: take_Suc_conv_app_nth)
    with True assms show ?thesis
      by (simp add: updateStack_def Let_def HasPrefix_hash clearDeeper_eq
          level_def [symmetric] title_def [symmetric])
  qed
qed


lemma chunkMarkdown_chunkOK:
  assumes "chunkMarkdown path content chunkSize chunkOverlap = Some chunks" and "c \<in> set chunks"
  shows "chunkOK path (Split content) (headingsByLine (Split content)) c"
proof -
  from assms(1) obtain cs co where
    "chunkLoop path (Split content) (headingsByLine (Split content)) cs co 0 [] = Some chunks"
    by (auto simp: chunkMarkdown_def Let_def)
  from chunkLoop_chunkOK [OF this] assms(2) show ?thesis by simp
qed

text \<open>
  Claim C8, as amended. A chunk holds the lines \<open>StartLine\<close> to \<open>EndLine\<close> of the document, and
  its heading is the heading path of the first of them, or the base name of the file
  without its extension where that path is empty. The heading path of a line is the
  six-level stack after that line, joined; a heading line of level 1 to 6 with a title
  sets its level of the stack and clears the deeper levels, and every other line leaves
  the stack as it is. In the sample document the heading path is \<open>A\<close> at the lines \<open># A\<close> and
  \<open>text\<close>, \<open>A > B\<close> at \<open>## B\<close> and \<open>more\<close>, \<open>C\<close> at \<open># C\<close> and \<open>end\<close>.
\<close>

theorem chunk_heading_of_first_line:
  "(chunkMarkdown path content chunkSize chunkOverlap = Some chunks \<and> c \<in> set chunks \<longrightarrow>
      1 \<le> StartLine c \<and> StartLine c \<le> EndLine c \<and>
      EndLine c \<le> int (length (Split content)) \<and> Path c = path \<and>
      Content c = TrimSpace (Join (take (nat (EndLine c - StartLine c + 1))
                                    (drop (nat (StartLine c - 1)) (Split content)))) \<and>
      Heading c = (let h = headingsByLine (Split content) ! nat (StartLine c - 1)
                   in if h = [] then TrimSuffix (Base path) (Ext path) else h))
   \<and> (k < length lines \<longrightarrow>
        headingsByLine lines ! k
          = joinHeading (foldl updateStack (replicate 6 []) (take (Suc k) lines)))
   \<and> (length stack = 6 \<longrightarrow>
        updateStack stack line
          = (let trimmed = TrimSpace line;
                 level = countHashes trimmed;
                 title = TrimSpace (drop level trimmed)
             in if 1 \<le> level \<and> level \<le> 6 \<and> title \<noteq> []
                then take (level - 1) stack @ title # replicate (6 - level) []
                else stack))
   \<and> headingsByLine (Split ''# A\<newline>text\<newline>## B\<newline>more\<newline># C\<newline>end'')
       = [''A'', ''A'', ''A > B'', ''A > B'', ''C'', ''C'']
   \<and> (chunkMarkdown path ''# A\<newline>text\<newline>## B\<newline>more\<newline># C\<newline>end'' chunkSize chunkOverlap = Some chunks \<and> c \<in> set chunks \<longrightarrow>
        1 \<le> StartLine c \<and> StartLine c \<le> 6 \<and>
        Heading c = [''A'', ''A'', ''A > B'', ''A > B'', ''C'', ''C''] ! nat (StartLine c - 1))"
proof (intro conjI impI)
  assume a: "chunkMarkdown path content chunkSize chunkOverlap = Some chunks \<and> c \<in> set chunks"
  then have ok: "chunkOK path (Split content) (headingsByLine (Split content)) c"
    using chunkMarkdown_chunkOK [of path content chunkSize chunkOverlap chunks c] by blast
  from ok show "1 \<le> StartLine c" by (simp add: chunkOK_def)
  from ok show "StartLine c \<le> EndLine c" by (simp add: chunkOK_def)
  from ok show "EndLine c \<le> int (length (Split content))" by (simp add: chunkOK_def)
  from ok show "Path c = path" by (simp add: chunkOK_def)
  from ok show "Content c = TrimSpace (Join (take (nat (EndLine c - StartLine c + 1))
                                    (drop (nat (StartLine c - 1)) (Split content))))"
    by (simp add: chunkOK_def)
  from ok show "Heading c = (let h = headingsByLine (Split content) ! nat (StartLine c - 1)
                   in if h = [] then TrimSuffix (Base path) (Ext path) else h)"
    by (simp add: chunkOK_def)
next
  assume "k < length lines"
  then show "headingsByLine lines ! k
          = joinHeading (foldl updateStack (replicate 6 []) (take (Suc k) lines))"
    unfolding headingsByLine_def by (rule headingsLoop_nth)
next
  assume "length stack = 6"
  then show "updateStack stack line
          = (let trimmed = TrimSpace line;
                 level = countHashes trimmed;
                 title = TrimSpace (drop level trimmed)
             in if 1 \<le> level \<and> level \<le> 6 \<and> title \<noteq> []
                then take (level - 1) stack @ title # replicate (6 - level) []
                else stack)"
    by (rule updateStack_eq)
next
  show "headingsByLine (Split ''# A\<newline>text\<newline>## B\<newline>more\<newline># C\<newline>end'')
       = [''A'', ''A'', ''A > B'', ''A > B'', ''C'', ''C'']"
    by code_simp
next
  let ?doc = "''# A\<newline>text\<newline>## B\<newline>more\<newline># C\<newline>end''"
  let ?paths = "[''A'', ''A'', ''A > B'', ''A > B'', ''C'', ''C'']"
  assume a: "chunkMarkdown path ?doc chunkSize chunkOverlap = Some chunks \<and> c \<in> set chunks"
  have paths: "headingsByLine (Split ?doc) = ?paths"
    by code_simp
  have six: "int (length (Split ?doc)) = 6"
    by code_simp
  from a have "chunkOK path (Split ?doc) (headingsByLine (Split ?doc)) c"
    using chunkMarkdown_chunkOK [of path ?doc chunkSize chunkOverlap chunks c] by blast
  then have ok: "chunkOK path (Split ?doc) ?paths c"
    unfolding paths .
  then have "1 \<le> StartLine c \<and> StartLine c \<le> int (length (Split ?doc))"
    unfolding chunkOK_def by linarith
  then have lo: "1 \<le> StartLine c" and hi: "StartLine c \<le> 6"
    unfolding six by simp_all
  then have "nat (StartLine c - 1) < length ?paths" by simp
  then have "?paths ! nat (StartLine c - 1) \<in> set ?paths" by (rule nth_mem)
  then have "?paths ! nat (StartLine c - 1) \<noteq> []" by auto
  moreover from ok have "Heading c = (let h = ?paths ! nat (StartLine c - 1)
      in if h = [] then TrimSuffix (Base path) (Ext path) else h)"
    unfolding chunkOK_def by (elim conjE)
  ultimately have "Heading c = ?paths ! nat (StartLine c - 1)"
    unfolding Let_def by (simp only: if_False)
  with lo hi show "1 \<le> StartLine c" "StartLine c \<le> 6"
    "Heading c = ?paths ! nat (StartLine c - 1)" by simp_all
qed

theorem chunk_heading_of_first_line_witness:
  "chunkMarkdown ''notes.md'' ''# A\<newline>text\<newline>## B\<newline>more\<newline># C\<newline>end'' 9 0
     = Some
        [\<lparr>Path = ''notes.md'', Heading = ''A'', StartLine = 1, EndLine = 2,
          Content = ''# A\<newline>text''\<rparr>,
         \<lparr>Path = ''notes.md'', Heading = ''A > B'', StartLine = 3, EndLine = 3,
          Content = ''## B''\<rparr>,
         \<lparr>Path = ''notes.md'', Heading = ''A > B'', StartLine = 4, EndLine = 5,
          Content = ''more\<newline># C''\<rparr>,
         \<lparr>Path = ''notes.md'', Heading = ''C'', StartLine = 6, EndLine = 6,
          Content = ''end''\<rparr>]
   \<and> chunkMarkdown ''notes.md'' ''# A\<newline>text\<newline>## B\<newline>more\<newline># C\<newline>end'' 1 0
     = Some
        [\<lparr>Path = ''notes.md'', Heading = ''A'', StartLine = 1, EndLine = 1, Content = ''# A''\<rparr>,
         \<lparr>Path = ''notes.md'', Heading = ''A'', StartLine = 2, EndLine = 2, Content = ''text''\<rparr>,
         \<lparr>Path = ''notes.md'', Heading = ''A > B'', StartLine = 3, EndLine = 3, Content = ''## B''\<rparr>,
         \<lparr>Path = ''notes.md'', Heading = ''A > B'', StartLine = 4, EndLine = 4, Content = ''more''\<rparr>,
         \<lparr>Path = ''notes.md'', Heading = ''C'', StartLine = 5, EndLine = 5, Content = ''# C''\<rparr>,
         \<lparr>Path = ''notes.md'', Heading = ''C'', StartLine = 6, EndLine = 6, Content = ''end''\<rparr>]
   \<and> Split ''# A\<newline>text\<newline>## B\<newline>more\<newline># C\<newline>end'' = [''# A'', ''text'', ''## B'', ''more'', ''# C'', ''end'']
   \<and> TrimSpace (Join [''more'', ''# C'']) = ''more\<newline># C''
   \<and> headingsByLine (Split ''# A\<newline>text\<newline>## B\<newline>more\<newline># C\<newline>end'') ! 3 = ''A > B''
   \<and> headingsByLine (Split ''# A\<newline>text\<newline>## B\<newline>more\<newline># C\<newline>end'') ! 4 = ''C''
   \<and> joinHeading (foldl updateStack (replicate 6 []) [''# A'', ''text'', ''## B'', ''more''])
       = ''A > B''
   \<and> updateStack [''A'', ''old'', ''x'', [], [], []] ''## B'' = [''A'', ''B'', [], [], [], []]
   \<and> updateStack [''A'', ''old'', ''x'', [], [], []] ''more'' = [''A'', ''old'', ''x'', [], [], []]"
proof -
  let ?doc = "''# A\<newline>text\<newline>## B\<newline>more\<newline># C\<newline>end''"
  let ?lines = "[''# A'', ''text'', ''## B'', ''more'', ''# C'', ''end'']"
  let ?c = "\<lparr>Path = ''notes.md'', Heading = ''A > B'', StartLine = 4, EndLine = 5,
             Content = ''more\<newline># C''\<rparr>"
  let ?chunks =
       "[\<lparr>Path = ''notes.md'', Heading = ''A'', StartLine = 1, EndLine = 2,
          Content = ''# A\<newline>text''\<rparr>,
         \<lparr>Path = ''notes.md'', Heading = ''A > B'', StartLine = 3, EndLine = 3,
          Content = ''## B''\<rparr>,
         ?c,
         \<lparr>Path = ''notes.md'', Heading = ''C'', StartLine = 6, EndLine = 6,
          Content = ''end''\<rparr>]"
  let ?stack = "[''A'', ''old'', ''x'', [], [], []]"
  have chunked: "chunkMarkdown ''notes.md'' ?doc 9 0 = Some ?chunks"
    by code_simp
  have single: "chunkMarkdown ''notes.md'' ?doc 1 0
     = Some
        [\<lparr>Path = ''notes.md'', Heading = ''A'', StartLine = 1, EndLine = 1, Content = ''# A''\<rparr>,
         \<lparr>Path = ''notes.md'', Heading = ''A'', StartLine = 2, EndLine = 2, Content = ''text''\<rparr>,
         \<lparr>Path = ''notes.md'', Heading = ''A > B'', StartLine = 3, EndLine = 3, Content = ''## B''\<rparr>,
         \<lparr>Path = ''notes.md'', Heading = ''A > B'', StartLine = 4, EndLine = 4, Content = ''more''\<rparr>,
         \<lparr>Path = ''notes.md'', Heading = ''C'', StartLine = 5, EndLine = 5, Content = ''# C''\<rparr>,
         \<lparr>Path = ''notes.md'', Heading = ''C'', StartLine = 6, EndLine = 6, Content = ''end''\<rparr>]"
    by code_simp
  have lines: "Split ?doc = ?lines"
    by code_simp
  have last: "headingsByLine (Split ?doc) ! 4 = ''C''"
    by code_simp
  have trims: "TrimSpace ''## B'' = ''## B''" "countHashes ''## B'' = 2"
    "TrimSpace (drop 2 ''## B'') = ''B''" "TrimSpace ''more'' = ''more''"
    "countHashes ''more'' = 0"
    by code_simp+
  note inst = chunk_heading_of_first_line
    [where path = "''notes.md''" and content = ?doc and chunkSize = 9 and chunkOverlap = 0
       and chunks = ?chunks and c = ?c and k = 3 and lines = ?lines and stack = ?stack]
  have member: "?c \<in> set ?chunks"
    by simp
  have n: "nat (EndLine ?c - StartLine ?c + 1) = 2" "nat (StartLine ?c - 1) = 3"
    by simp_all
  note first = mp [OF inst [where line = "''## B''", THEN conjunct1] conjI [OF chunked member],
      THEN conjunct2, THEN conjunct2, THEN conjunct2, THEN conjunct2, unfolded n lines]
  have part: "take 2 (drop 3 ?lines) = [''more'', ''# C'']"
    by simp
  from first [THEN conjunct1, unfolded part]
  have content: "TrimSpace (Join [''more'', ''# C'']) = ''more\<newline># C''"
    by (simp only: chunk.select_convs)
  from first [THEN conjunct2]
  have "''A > B'' = (let h = headingsByLine ?lines ! 3
                      in if h = [] then TrimSuffix (Base ''notes.md'') (Ext ''notes.md'') else h)"
    by (simp only: chunk.select_convs)
  moreover have "headingsByLine (Split ?doc) ! 3 \<noteq> []"
    using inst [where line = "''## B''", THEN conjunct2, THEN conjunct2, THEN conjunct2,
        THEN conjunct1] by simp
  ultimately have heading: "headingsByLine (Split ?doc) ! 3 = ''A > B''"
    unfolding lines Let_def by (simp only: if_False)
  have "headingsByLine ?lines ! 3
      = joinHeading (foldl updateStack (replicate 6 []) (take (Suc 3) ?lines))"
    by (rule mp [OF inst [where line = "''## B''", THEN conjunct2, THEN conjunct1]]) simp
  moreover have "take (Suc 3) ?lines = [''# A'', ''text'', ''## B'', ''more'']"
    by simp
  ultimately have path: "joinHeading (foldl updateStack (replicate 6 [])
      [''# A'', ''text'', ''## B'', ''more'']) = ''A > B''"
    using heading unfolding lines by (simp only:)
  have "updateStack ?stack ''## B''
          = (let trimmed = TrimSpace ''## B'';
                 level = countHashes trimmed;
                 title = TrimSpace (drop level trimmed)
             in if 1 \<le> level \<and> level \<le> 6 \<and> title \<noteq> []
                then take (level - 1) ?stack @ title # replicate (6 - level) []
                else ?stack)"
    by (rule mp [OF inst [where line = "''## B''", THEN conjunct2, THEN conjunct2, THEN conjunct1]])
       simp
  then have set: "updateStack ?stack ''## B'' = [''A'', ''B'', [], [], [], []]"
    unfolding Let_def trims by (simp add: numeral_eq_Suc)
  have "updateStack ?stack ''more''
          = (let trimmed = TrimSpace ''more'';
                 level = countHashes trimmed;
                 title = TrimSpace (drop level trimmed)
             in if 1 \<le> level \<and> level \<le> 6 \<and> title \<noteq> []
                then take (level - 1) ?stack @ title # replicate (6 - level) []
                else ?stack)"
    by (rule mp [OF inst [where line = "''more''", THEN conjunct2, THEN conjunct2, THEN conjunct1]])
       simp
  then have kept: "updateStack ?stack ''more'' = ?stack"
    unfolding Let_def trims by simp
  from chunked single lines content heading last path set kept show ?thesis
    by (intro conjI)
qed

text \<open>
  Claim C8 as stated fails twice. With the default chunk size the sample document is one
  chunk, which covers \<open>more\<close> and \<open>end\<close> and carries the heading \<open>A\<close>. And a heading line
  without a title, here the line \<open>#\<close>, neither sets its level nor clears the deeper ones:
  the chunks of the lines \<open>#\<close> and \<open>x\<close> still carry \<open>A > B\<close>.
\<close>

theorem chunk_heading_counterexample:
  "chunkMarkdown ''notes.md'' ''# A\<newline>text\<newline>## B\<newline>more\<newline># C\<newline>end'' 800 0
     = Some [\<lparr>Path = ''notes.md'', Heading = ''A'', StartLine = 1, EndLine = 6,
              Content = ''# A\<newline>text\<newline>## B\<newline>more\<newline># C\<newline>end''\<rparr>]
   \<and> chunkMarkdown ''n.md'' ''# A\<newline>## B\<newline>#\<newline>x'' 1 0
     = Some
        [\<lparr>Path = ''n.md'', Heading = ''A'', StartLine = 1, EndLine = 1, Content = ''# A''\<rparr>,
         \<lparr>Path = ''n.md'', Heading = ''A > B'', StartLine = 2, EndLine = 2, Content = ''## B''\<rparr>,
         \<lparr>Path = ''n.md'', Heading = ''A > B'', StartLine = 3, EndLine = 3, Content = ''#''\<rparr>,
         \<lparr>Path = ''n.md'', Heading = ''A > B'', StartLine = 4, EndLine = 4, Content = ''x''\<rparr>]
   \<and> headingsByLine [''# A'', ''## B'', ''#'', ''x''] = [''A'', ''A > B'', ''A > B'', ''A > B'']"
  by code_simp

section \<open>Properties of file discovery\<close>























section \<open>Properties of the indexing run\<close>

lemma stringSliceLoop_iff: "length a = length b \<Longrightarrow> stringSliceLoop a b \<longleftrightarrow> a = b"
  by (induction a b rule: stringSliceLoop.induct) auto

lemma stringSliceEqual_iff: "stringSliceEqual a b \<longleftrightarrow> a = b"
  by (auto simp: stringSliceEqual_def stringSliceLoop_iff)

lemma decideReindexAll_None: "decideReindexAll opts None i"
  by (simp add: decideReindexAll_def)

lemma decideReindexAll_Some:
  "decideReindexAll opts (Some s) i \<longleftrightarrow>
     ReindexAll opts \<or> EmbeddingModel s \<noteq> model (embedder i)
     \<or> ChunkSize s \<noteq> cfgChunkSize (cfg i) \<or> ChunkOverlap s \<noteq> cfgChunkOverlap (cfg i)
     \<or> IncludePatterns s \<noteq> cfgIncludePatterns (cfg i)
     \<or> ExcludePatterns s \<noteq> cfgExcludePatterns (cfg i)
     \<or> Collection s \<noteq> collection (qdrant i)"
  by (auto simp: decideReindexAll_def stringSliceEqual_iff Let_def)

text \<open>
  Claim C2. The run rebuilds everything exactly when the manifest file cannot be read,
  or cannot be parsed, or the caller asks for it, or the manifest differs from the
  configuration in the embedding model, the chunk size, the chunk overlap, the list of
  include patterns, the list of exclude patterns (as sequences) or the collection. A
  manifest stamped by a run, met by a run whose configuration differs in the chunk size
  only, forces the rebuild; met with the same chunk size, it does not.
\<close>

theorem reindexAll_policy:
  "(decideReindexAll opts (case loadIndexState env w of Inl err \<Rightarrow> None | Inr s \<Rightarrow> Some s) i
      \<longleftrightarrow>
        (\<exists>err. stateFile w = Inl err)
      \<or> (\<exists>data err. stateFile w = Inr data \<and> jsonUnmarshal env data = Inl err)
      \<or> ReindexAll opts
      \<or> (\<exists>data s. stateFile w = Inr data \<and> jsonUnmarshal env data = Inr s \<and>
            (EmbeddingModel s \<noteq> model (embedder i)
             \<or> ChunkSize s \<noteq> cfgChunkSize (cfg i) \<or> ChunkOverlap s \<noteq> cfgChunkOverlap (cfg i)
             \<or> IncludePatterns s \<noteq> cfgIncludePatterns (cfg i)
             \<or> ExcludePatterns s \<noteq> cfgExcludePatterns (cfg i)
             \<or> Collection s \<noteq> collection (qdrant i))))
   \<and> (decideReindexAll opts (Some (stampState i s0))
         (i\<lparr>cfg := (cfg i)\<lparr>cfgChunkSize := chunkSize'\<rparr>\<rparr>)
      \<longleftrightarrow> ReindexAll opts \<or> chunkSize' \<noteq> cfgChunkSize (cfg i))"
proof
  show "decideReindexAll opts (case loadIndexState env w of Inl err \<Rightarrow> None | Inr s \<Rightarrow> Some s) i
      \<longleftrightarrow>
        (\<exists>err. stateFile w = Inl err)
      \<or> (\<exists>data err. stateFile w = Inr data \<and> jsonUnmarshal env data = Inl err)
      \<or> ReindexAll opts
      \<or> (\<exists>data s. stateFile w = Inr data \<and> jsonUnmarshal env data = Inr s \<and>
            (EmbeddingModel s \<noteq> model (embedder i)
             \<or> ChunkSize s \<noteq> cfgChunkSize (cfg i) \<or> ChunkOverlap s \<noteq> cfgChunkOverlap (cfg i)
             \<or> IncludePatterns s \<noteq> cfgIncludePatterns (cfg i)
             \<or> ExcludePatterns s \<noteq> cfgExcludePatterns (cfg i)
             \<or> Collection s \<noteq> collection (qdrant i)))"
  proof (cases "stateFile w")
    case (Inl err)
    then show ?thesis by (simp add: loadIndexState_def decideReindexAll_None)
  next
    case (Inr data)
    then show ?thesis
      by (cases "jsonUnmarshal env data")
         (simp_all add: loadIndexState_def decideReindexAll_None decideReindexAll_Some)
  qed
  show "decideReindexAll opts (Some (stampState i s0))
         (i\<lparr>cfg := (cfg i)\<lparr>cfgChunkSize := chunkSize'\<rparr>\<rparr>)
      \<longleftrightarrow> ReindexAll opts \<or> chunkSize' \<noteq> cfgChunkSize (cfg i)"
    by (auto simp: decideReindexAll_Some stampState_def)
qed

theorem reindexAll_policy_witness:
  "decideReindexAll \<lparr>ReindexAll = False\<rparr>
      (case loadIndexState (sampleEnv (\<lambda>texts. Inr [])) \<lparr>trace = [], stateFile = Inr ''manifest''\<rparr> of
         Inl err \<Rightarrow> None | Inr s \<Rightarrow> Some s)
      ((sampleIndexer 0)\<lparr>cfg := (cfg (sampleIndexer 0))\<lparr>cfgChunkSize := 500\<rparr>\<rparr>)
   \<and> \<not> decideReindexAll \<lparr>ReindexAll = False\<rparr>
      (case loadIndexState (sampleEnv (\<lambda>texts. Inr [])) \<lparr>trace = [], stateFile = Inr ''manifest''\<rparr> of
         Inl err \<Rightarrow> None | Inr s \<Rightarrow> Some s)
      (sampleIndexer 0)
   \<and> decideReindexAll \<lparr>ReindexAll = False\<rparr>
      (case loadIndexState (sampleEnv (\<lambda>texts. Inr [])) \<lparr>trace = [], stateFile = Inr ''{broken''\<rparr> of
         Inl err \<Rightarrow> None | Inr s \<Rightarrow> Some s)
      (sampleIndexer 0)
   \<and> decideReindexAll \<lparr>ReindexAll = False\<rparr> (Some (stampState (sampleIndexer 0) sampleManifest))
      ((sampleIndexer 0)\<lparr>cfg := (cfg (sampleIndexer 0))\<lparr>cfgChunkSize := 500\<rparr>\<rparr>)
   \<and> \<not> decideReindexAll \<lparr>ReindexAll = False\<rparr> (Some (stampState (sampleIndexer 0) sampleManifest))
      ((sampleIndexer 0)\<lparr>cfg := (cfg (sampleIndexer 0))\<lparr>cfgChunkSize := 800\<rparr>\<rparr>)"
proof -
  note inst = reindexAll_policy [where opts = "\<lparr>ReindexAll = False\<rparr>"
      and env = "sampleEnv (\<lambda>texts. Inr [])" and ?s0.0 = sampleManifest]
  show ?thesis
    using inst [where w = "\<lparr>trace = [], stateFile = Inr ''manifest''\<rparr>"
        and i = "(sampleIndexer 0)\<lparr>cfg := (cfg (sampleIndexer 0))\<lparr>cfgChunkSize := 500\<rparr>\<rparr>",
        THEN conjunct1]
      inst [where w = "\<lparr>trace = [], stateFile = Inr ''manifest''\<rparr>" and i = "sampleIndexer 0",
        THEN conjunct1]
      inst [where w = "\<lparr>trace = [], stateFile = Inr ''{broken''\<rparr>" and i = "sampleIndexer 0",
        THEN conjunct1]
      inst [where i = "sampleIndexer 0" and chunkSize' = 500, THEN conjunct2]
      inst [where i = "sampleIndexer 0" and chunkSize' = 800, THEN conjunct2]
    by (simp add: sampleEnv_def sampleIndexer_def sampleManifest_def NewEmbeddingClient_def)
qed

text \<open>
  Claim C4 says that a run with a configured dimension fails when the embedding service
  answers with vectors of another dimension. With a configured dimension of 3 and no
  manifest the run ensures the collection before the first file, which sets the dimension
  of the manifest to 3; the test of the first batch is made only while that dimension is 0.
  The service answers with vectors of dimension 2: the run succeeds and upserts them.
\<close>

theorem run_upserts_mismatched_vectors:
  "run (sampleEnv (\<lambda>texts. Inr (map (\<lambda>t. [0, 0]) texts))) (sampleIndexer 3)
       \<lparr>ReindexAll = False\<rparr> \<lparr>trace = [], stateFile = Inl (External ''not found'')\<rparr>
   = Some
  (\<lparr>trace =
      [EnsureCollectionCall 3 True None,
       ReadFileCall ''/vault/a.md'' (Inr ''alpha\<newline>beta''),
       DeleteByPathCall ''a.md'' None,
       EmbedBatchCall [''alpha\<newline>beta''] (Inr [[0, 0]]),
       UpsertCall
        [\<lparr>ID = ''a.md:1:2'', Vector = [0, 0],
            Payload =
              \<lparr>payloadPath = ''a.md'', payloadHeading = ''a'',
                 payloadStartLine = 1, payloadEndLine = 2,
                 payloadContent = ''alpha\<newline>beta'', payloadMTime = 7\<rparr>\<rparr>]
        None,
       ReadFileCall ''/vault/b.md'' (Inr ''# B\<newline>world''),
       DeleteByPathCall ''b.md'' None,
       EmbedBatchCall [''# B\<newline>world''] (Inr [[0, 0]]),
       UpsertCall
        [\<lparr>ID = ''b.md:1:2'', Vector = [0, 0],
            Payload =
              \<lparr>payloadPath = ''b.md'', payloadHeading = ''B'',
                 payloadStartLine = 1, payloadEndLine = 2,
                 payloadContent = ''# B\<newline>world'', payloadMTime = 9\<rparr>\<rparr>]
        None],
      stateFile = Inr ''saved:a.mdb.md''\<rparr>,
   Inr \<lparr>TotalFiles = 2, IndexedFiles = 2, UpdatedFiles = 0,
          RemovedFiles = 0, SkippedFiles = 0, Chunks = 2\<rparr>)"
  by code_simp

subsection \<open>Failed calls\<close>

lemma added_eq: "trace w' = trace w @ new \<Longrightarrow> added w w' = new"
  by (simp add: added_def)

lemma calm_Nil [simp]: "calm []"
  by (simp add: calm_def)

lemma calm_append [simp]: "calm (xs @ ys) \<longleftrightarrow> calm xs \<and> calm ys"
  by (auto simp: calm_def)

lemma calm_butlast: "calm xs \<Longrightarrow> calm (butlast xs)"
  by (auto simp: calm_def dest: in_set_butlastD)

lemma stage_refl: "stage w w ok"
  by (simp add: stage_def)

lemma stage_weaken: "stage w w' True \<Longrightarrow> stage w w' ok"
  by (auto simp: stage_def calm_butlast)

lemma stage_trans:
  assumes "stage w w1 True" and "stage w1 w2 ok"
  shows "stage w w2 ok"
proof -
  from assms obtain n1 n2 where n: "trace w1 = trace w @ n1" "calm n1"
    "trace w2 = trace w1 @ n2" "calm (if ok then n2 else butlast n2)"
    and sf: "stateFile w2 = stateFile w"
    by (auto simp: stage_def)
  have "calm (if ok then n1 @ n2 else butlast (n1 @ n2))"
    using n(2,4) by (cases "n2 = []") (auto simp: butlast_append calm_butlast)
  with n sf show ?thesis
    unfolding stage_def by (intro conjI exI [of _ "n1 @ n2"]) simp_all
qed

lemma stage_record: "ok \<longrightarrow> \<not> failedCall e \<Longrightarrow> stage w (record_event w e) ok"
  by (auto simp: stage_def record_event_def calm_def)

lemma ensureCollection_stage:
  "ensureCollection env i reindexAll dim (w, st) = (w', res) \<Longrightarrow> stage w w' (\<not> isl res)"
  by (auto simp: ensureCollection_def Let_def stage_refl stage_record
      split: if_splits option.splits)

lemma removalPass_stage:
  "removalPass env cur paths (w, st, sm) = (w', res) \<Longrightarrow> stage w w' (\<not> isl res)"
proof (induction paths arbitrary: w st sm)
  case Nil
  then show ?case by (auto simp: stage_refl)
next
  case (Cons p ps)
  show ?case
  proof (cases "cur p = None")
    case False
    with Cons show ?thesis by simp
  next
    case True
    show ?thesis
    proof (cases "deleteByPath env (trace w) p")
      case None
      with True Cons.prems have
        "removalPass env cur ps (record_event w (DeleteByPathCall p None),
           st\<lparr>Files := AList.delete p (Files st)\<rparr>,
           sm\<lparr>RemovedFiles := RemovedFiles sm + 1\<rparr>) = (w', res)"
        by (simp add: Let_def)
      from Cons.IH [OF this] show ?thesis
        by (rule stage_trans [rotated]) (simp add: stage_record)
    next
      case (Some err)
      with True Cons.prems show ?thesis
        by (auto simp: Let_def stage_record)
    qed
  qed
qed

lemma resolveDimension_stage:
  "resolveDimension env i reindexAll embeddings (w, st) = (w', res) \<Longrightarrow> stage w w' (\<not> isl res)"
  by (auto simp: resolveDimension_def Let_def stage_refl dest: ensureCollection_stage
      split: if_splits)

lemma upsertBatch_stage:
  "upsertBatch env fl batch embeddings (w, st, sm) = (w', res) \<Longrightarrow> stage w w' (\<not> isl res)"
  by (auto simp: upsertBatch_def Let_def stage_record split: option.splits)

lemma embedBatchStep_stage:
  assumes "embedBatchStep env i reindexAll fl batch (w, st, sm) = (w', res)"
  shows "stage w w' (\<not> isl res)"
proof (cases "embedBatch env (trace w) (map Content batch)")
  case (Inl err)
  with assms show ?thesis
    by (auto simp: embedBatchStep_def Let_def stage_record)
next
  case (Inr embeddings)
  define w1 where "w1 = record_event w (EmbedBatchCall (map Content batch) (Inr embeddings))"
  have s1: "stage w w1 True"
    by (simp add: w1_def stage_record)
  show ?thesis
  proof (cases "length embeddings \<noteq> length batch")
    case True
    with assms Inr have "w' = w1" "isl res"
      by (auto simp: embedBatchStep_def Let_def w1_def)
    with s1 show ?thesis by (simp add: stage_weaken)
  next
    case False
    obtain w2 r2 where e: "resolveDimension env i reindexAll embeddings (w1, st) = (w2, r2)"
      by (cases "resolveDimension env i reindexAll embeddings (w1, st)")
    note s2 = resolveDimension_stage [OF e]
    show ?thesis
    proof (cases r2)
      case (Inl err)
      with assms Inr False e have "w' = w2" "isl res"
        by (auto simp: embedBatchStep_def Let_def w1_def)
      with s1 s2 Inl show ?thesis by (auto intro: stage_trans)
    next
      case r2: (Inr st')
      with assms Inr False e have "upsertBatch env fl batch embeddings (w2, st', sm) = (w', res)"
        by (auto simp: embedBatchStep_def Let_def w1_def)
      from upsertBatch_stage [OF this] s1 s2 r2 show ?thesis
        by (auto intro: stage_trans)
    qed
  qed
qed

lemma embedLoop_unfold:
  "embedLoop env i reindexAll fl chunks start wss =
     (if batchSize (embedder i) \<le> 0 then None
      else if start < length chunks then
        (case embedBatchStep env i reindexAll fl
                (take ((if start + nat (batchSize (embedder i)) > length chunks then length chunks
                        else start + nat (batchSize (embedder i))) - start) (drop start chunks)) wss of
           (w', Inl err) \<Rightarrow> Some (w', Inl err)
         | (w', Inr progress) \<Rightarrow>
             embedLoop env i reindexAll fl chunks (start + nat (batchSize (embedder i)))
               (w', progress))
      else Some (fst wss, Inr (snd wss)))"
  by (subst embedLoop.simps) (simp add: Let_def)

lemma embedLoop_stage:
  "embedLoop env i reindexAll fl chunks start wss = Some (w', res) \<Longrightarrow>
     stage (fst wss) w' (\<not> isl res)"
proof (induction env i reindexAll fl chunks start wss rule: embedLoop.induct)
  case (1 env i reindexAll fl chunks start wss)
  obtain w st sm where wss: "wss = (w, st, sm)" by (cases wss)
  from "1.prems" have pos: "\<not> batchSize (embedder i) \<le> 0"
    by (subst (asm) embedLoop_unfold) (auto split: if_splits)
  show ?case
  proof (cases "start < length chunks")
    case False
    with "1.prems" pos show ?thesis
      by (subst (asm) embedLoop_unfold) (auto simp: stage_refl)
  next
    case True
    define e where "e = (if start + nat (batchSize (embedder i)) > length chunks then length chunks
                   else start + nat (batchSize (embedder i)))"
    define batch where "batch = take (e - start) (drop start chunks)"
    obtain w1 r1 where step: "embedBatchStep env i reindexAll fl batch wss = (w1, r1)"
      by (cases "embedBatchStep env i reindexAll fl batch wss")
    have s1: "stage w w1 (\<not> isl r1)"
      using step embedBatchStep_stage wss by metis
    from "1.prems" pos True step have unf:
      "(case r1 of Inl err \<Rightarrow> Some (w1, Inl err)
        | Inr progress \<Rightarrow> embedLoop env i reindexAll fl chunks
               (start + nat (batchSize (embedder i))) (w1, progress)) = Some (w', res)"
      by (subst (asm) embedLoop_unfold) (simp add: e_def batch_def)
    show ?thesis
    proof (cases r1)
      case (Inl err)
      with unf s1 wss show ?thesis by auto
    next
      case (Inr progress)
      with unf have next_round:
        "embedLoop env i reindexAll fl chunks (start + nat (batchSize (embedder i)))
           (w1, progress) = Some (w', res)"
        by simp
      have "stage (fst (w1, progress)) w' (\<not> isl res)"
        by (rule "1.IH" [OF pos True e_def batch_def step [symmetric] Inr next_round])
      with s1 Inr wss show ?thesis
        by (auto intro: stage_trans)
    qed
  qed
qed

lemma indexChunks_stage:
  assumes "indexChunks env i reindexAll fl chunks (w, st, sm) = Some (w', res)"
  shows "stage w w' (\<not> isl res)"
proof (cases "length chunks = 0")
  case True
  with assms show ?thesis by (auto simp: indexChunks_def stage_refl)
next
  case False
  show ?thesis
  proof (cases "deleteByPath env (trace w) (RelPath fl)")
    case (Some err)
    with assms False show ?thesis
      by (auto simp: indexChunks_def Let_def stage_record)
  next
    case None
    define w2 where "w2 = record_event w (DeleteByPathCall (RelPath fl) None)"
    have s1: "stage w w2 True" by (simp add: w2_def stage_record)
    from assms False None obtain w3 r3 where
      loop: "embedLoop env i reindexAll fl chunks 0 (w2, st, sm) = Some (w3, r3)"
      and out: "w' = w3" "isl res = isl r3"
      by (auto simp: indexChunks_def Let_def w2_def split: option.splits sum.splits)
    from embedLoop_stage [OF loop] s1 out show ?thesis
      by (auto intro: stage_trans)
  qed
qed

lemma indexFile_stage:
  assumes "indexFile env i reindexAll fl (w, st, sm) = Some (w', res)"
  shows "stage w w' (\<not> isl res)"
proof (cases "\<not> reindexAll \<and> map_of (Files st) (RelPath fl) = Some (MTime fl)")
  case True
  with assms show ?thesis by (auto simp: indexFile_def stage_refl)
next
  case False
  define w1 where "w1 = record_event w (ReadFileCall (AbsPath fl) (readFile env (trace w) (AbsPath fl)))"
  have s1: "stage w w1 ok" for ok by (simp add: w1_def stage_record)
  show ?thesis
  proof (cases "readFile env (trace w) (AbsPath fl)")
    case (Inl err)
    with assms False s1 show ?thesis
      by (auto simp: indexFile_def Let_def w1_def)
  next
    case (Inr content)
    with assms False obtain chunks where
      "indexChunks env i reindexAll fl chunks (w1, st, sm) = Some (w', res)"
      by (auto simp: indexFile_def Let_def w1_def split: option.splits)
    from indexChunks_stage [OF this] s1 show ?thesis
      by (auto intro: stage_trans)
  qed
qed

lemma indexFiles_stage:
  "indexFiles env i reindexAll files (w, st, sm) = Some (w', res) \<Longrightarrow> stage w w' (\<not> isl res)"
proof (induction files arbitrary: w st sm)
  case Nil
  then show ?case by (auto simp: stage_refl)
next
  case (Cons fl files)
  from Cons.prems obtain w1 r1 where one: "indexFile env i reindexAll fl (w, st, sm) = Some (w1, r1)"
    by (auto split: option.splits)
  note s1 = indexFile_stage [OF one]
  show ?case
  proof (cases r1)
    case (Inl err)
    with Cons.prems one s1 show ?thesis by auto
  next
    case (Inr p)
    obtain st1 sm1 where p: "p = (st1, sm1)" by (cases p)
    with Cons.prems one Inr have "indexFiles env i reindexAll files (w1, st1, sm1) = Some (w', res)"
      by simp
    from Cons.IH [OF this] s1 Inr show ?thesis by (auto intro: stage_trans)
  qed
qed

lemma ensureInitial_stage:
  "ensureInitial env i reindexAll (w, st) = (w', res) \<Longrightarrow> stage w w' (\<not> isl res)"
  by (auto simp: ensureInitial_def Let_def stage_refl dest: ensureCollection_stage
      split: if_splits)

lemma prepareIndex_stage:
  assumes "prepareIndex env i reindexAll files state w = (w', res)"
  shows "stage w w' (\<not> isl res)"
proof -
  obtain w1 r1 where e: "ensureInitial env i reindexAll (w, state) = (w1, r1)"
    by (cases "ensureInitial env i reindexAll (w, state)")
  note s1 = ensureInitial_stage [OF e]
  show ?thesis
  proof (cases r1)
    case (Inl err)
    with assms e s1 show ?thesis by (auto simp: prepareIndex_def)
  next
    case (Inr state1)
    with assms e have
      "removalPass env (currentFilesOf files Map.empty)
          (map fst (Files (if reindexAll then state1\<lparr>Files := []\<rparr> else state1)))
          (w1, if reindexAll then state1\<lparr>Files := []\<rparr> else state1, newSummary files)
        = (w', res)"
      by (simp add: prepareIndex_def Let_def)
    from removalPass_stage [OF this] s1 Inr show ?thesis
      by (auto intro: stage_trans)
  qed
qed

text \<open>The setup either stops before any call, or lists the files and prepares the index.\<close>

lemma runSetup_cases:
  assumes "runSetup env i opts w = (w', res)"
  obtains (early) "w' = w" "isl res"
  | (prepared) files r where
      "listMarkdownFiles (walkDir env (pathClean env (expandHome env (cfgVaultPath (cfg i)))))
          (cfgIncludePatterns (cfg i)) (cfgExcludePatterns (cfg i)) = Inr files"
      "prepareIndex env i
          (decideReindexAll opts (case loadIndexState env w of Inl err \<Rightarrow> None | Inr s \<Rightarrow> Some s) i)
          files
          (case loadIndexState env w of Inl err \<Rightarrow> newState | Inr s \<Rightarrow> s) w = (w', r)"
      "res = (case r of Inl err \<Rightarrow> Inl err
              | Inr (state3, summary1) \<Rightarrow>
                  Inr (decideReindexAll opts
                         (case loadIndexState env w of Inl err \<Rightarrow> None | Inr s \<Rightarrow> Some s) i,
                       files, state3, summary1))"
proof -
  define vaultPath where "vaultPath = expandHome env (cfgVaultPath (cfg i))"
  show thesis
  proof (cases "vaultPath = []")
    case True
    with assms show thesis
      by (intro early) (auto simp: runSetup_def Let_def vaultPath_def [symmetric])
  next
    case ne: False
    show thesis
    proof (cases "statIsDir env vaultPath")
      case False
      with assms ne show thesis
        by (intro early) (auto simp: runSetup_def Let_def vaultPath_def [symmetric])
    next
      case dir: True
      show thesis
      proof (cases "listMarkdownFiles (walkDir env (pathClean env vaultPath))
                  (cfgIncludePatterns (cfg i)) (cfgExcludePatterns (cfg i))")
        case (Inl err)
        with assms ne dir show thesis
          by (intro early) (auto simp: runSetup_def Let_def vaultPath_def [symmetric])
      next
        case (Inr files)
        have st: "(case (case loadIndexState env w of Inl err \<Rightarrow> None | Inr s \<Rightarrow> Some s) of
                     None \<Rightarrow> newState | Some s \<Rightarrow> s)
                  = (case loadIndexState env w of Inl err \<Rightarrow> newState | Inr s \<Rightarrow> s)"
          by (simp split: sum.splits)
        obtain w2 r where p: "prepareIndex env i
          (decideReindexAll opts (case loadIndexState env w of Inl err \<Rightarrow> None | Inr s \<Rightarrow> Some s) i)
          files
          (case loadIndexState env w of Inl err \<Rightarrow> newState | Inr s \<Rightarrow> s) w = (w2, r)"
          by (cases "prepareIndex env i
          (decideReindexAll opts (case loadIndexState env w of Inl err \<Rightarrow> None | Inr s \<Rightarrow> Some s) i)
          files
          (case loadIndexState env w of Inl err \<Rightarrow> newState | Inr s \<Rightarrow> s) w")
        from assms ne dir Inr p have "w' = w2 \<and> res = (case r of Inl err \<Rightarrow> Inl err
              | Inr (state3, summary1) \<Rightarrow>
                  Inr (decideReindexAll opts
                         (case loadIndexState env w of Inl err \<Rightarrow> None | Inr s \<Rightarrow> Some s) i,
                       files, state3, summary1))"
          by (auto simp: runSetup_def Let_def vaultPath_def [symmetric] st split: sum.splits)
        with Inr p show thesis
          by (intro prepared [of files r]) (simp_all add: vaultPath_def)
      qed
    qed
  qed
qed

lemma runSetup_stage:
  assumes "runSetup env i opts w = (w', res)"
  shows "stage w w' (\<not> isl res)"
  using assms
proof (cases rule: runSetup_cases)
  case early
  then show ?thesis by (simp add: stage_refl)
next
  case (prepared files r)
  from prepareIndex_stage [OF prepared(2)] prepared(3) show ?thesis
    by (auto split: sum.splits)
qed

lemma saveIndexState_trace:
  "saveIndexState env w st = (w', res) \<Longrightarrow> trace w' = trace w"
  by (auto simp: saveIndexState_def Let_def split: sum.splits option.splits prod.splits)

text \<open>The batch loop returns when the batch size is positive.\<close>

lemma embedLoop_returns:
  "0 < batchSize (embedder i) \<Longrightarrow> embedLoop env i reindexAll fl chunks start wss \<noteq> None"
proof (induction env i reindexAll fl chunks start wss rule: embedLoop.induct)
  case (1 env i reindexAll fl chunks start wss)
  from "1.prems" have pos: "\<not> batchSize (embedder i) \<le> 0" by simp
  show ?case
  proof (cases "start < length chunks")
    case False
    with pos show ?thesis by (subst embedLoop_unfold) simp
  next
    case True
    define e where "e = (if start + nat (batchSize (embedder i)) > length chunks then length chunks
                   else start + nat (batchSize (embedder i)))"
    define batch where "batch = take (e - start) (drop start chunks)"
    obtain w1 r1 where step: "embedBatchStep env i reindexAll fl batch wss = (w1, r1)"
      by (cases "embedBatchStep env i reindexAll fl batch wss")
    show ?thesis
    proof (cases r1)
      case (Inl err)
      with pos True step show ?thesis
        by (subst embedLoop_unfold) (simp add: e_def batch_def)
    next
      case (Inr progress)
      from "1.IH" [OF pos True e_def batch_def step [symmetric] Inr "1.prems"]
      show ?thesis
        using pos True step Inr by (subst embedLoop_unfold) (simp add: e_def batch_def)
    qed
  qed
qed

lemma indexChunks_returns:
  assumes "0 < batchSize (embedder i)"
  shows "indexChunks env i reindexAll fl chunks wss \<noteq> None"
proof -
  obtain w st sm where wss: "wss = (w, st, sm)" by (cases wss)
  show ?thesis
  proof (cases "length chunks = 0")
    case True
    with wss show ?thesis by (simp add: indexChunks_def)
  next
    case False
    show ?thesis
    proof (cases "deleteByPath env (trace w) (RelPath fl)")
      case (Some err)
      with False wss show ?thesis by (simp add: indexChunks_def Let_def)
    next
      case None
      obtain w3 r3 where "embedLoop env i reindexAll fl chunks 0
          (record_event w (DeleteByPathCall (RelPath fl) None), st, sm) = Some (w3, r3)"
        using embedLoop_returns [OF assms] by (metis not_None_eq surj_pair)
      with None False wss show ?thesis
        by (simp add: indexChunks_def Let_def split: sum.splits prod.splits)
    qed
  qed
qed

text \<open>
  Where the pass over the files does not return, it has passed over some of the files,
  has read the next one, and the chunker does not return on what was read.
\<close>

lemma indexFile_stuck:
  assumes "indexFile env i reindexAll fl (w, st, sm) = None" and "0 < batchSize (embedder i)"
  shows "\<exists>content. readFile env (trace w) (AbsPath fl) = Inr content \<and>
     chunkMarkdown (RelPath fl) content (cfgChunkSize (cfg i)) (cfgChunkOverlap (cfg i)) = None"
proof (cases "readFile env (trace w) (AbsPath fl)")
  case (Inl err)
  with assms(1) show ?thesis
    by (simp add: indexFile_def Let_def split: if_splits)
next
  case (Inr content)
  show ?thesis
  proof (cases "chunkMarkdown (RelPath fl) content (cfgChunkSize (cfg i)) (cfgChunkOverlap (cfg i))")
    case None
    with Inr show ?thesis by blast
  next
    case (Some chunks)
    with assms(1) Inr indexChunks_returns [OF assms(2), of env reindexAll fl chunks
        "(record_event w (ReadFileCall (AbsPath fl) (Inr content)), st, sm)"]
    show ?thesis
      by (simp add: indexFile_def Let_def split: if_splits)
  qed
qed

lemma indexFiles_stuck:
  assumes "indexFiles env i reindexAll files (w, st, sm) = None" and "0 < batchSize (embedder i)"
  shows "\<exists>before fl after w3 st3 sm3 content.
     files = before @ fl # after \<and>
     indexFiles env i reindexAll before (w, st, sm) = Some (w3, Inr (st3, sm3)) \<and>
     readFile env (trace w3) (AbsPath fl) = Inr content \<and>
     chunkMarkdown (RelPath fl) content (cfgChunkSize (cfg i)) (cfgChunkOverlap (cfg i)) = None"
  using assms(1)
proof (induction files arbitrary: w st sm)
  case Nil
  then show ?case by simp
next
  case (Cons fl files)
  show ?case
  proof (cases "indexFile env i reindexAll fl (w, st, sm)")
    case None
    from indexFile_stuck [OF this assms(2)] obtain content where
      "readFile env (trace w) (AbsPath fl) = Inr content"
      "chunkMarkdown (RelPath fl) content (cfgChunkSize (cfg i)) (cfgChunkOverlap (cfg i)) = None"
      by blast
    then have "fl # files = [] @ fl # files \<and>
       indexFiles env i reindexAll [] (w, st, sm) = Some (w, Inr (st, sm)) \<and>
       readFile env (trace w) (AbsPath fl) = Inr content \<and>
       chunkMarkdown (RelPath fl) content (cfgChunkSize (cfg i)) (cfgChunkOverlap (cfg i)) = None"
      by simp
    then show ?thesis by blast
  next
    case (Some a)
    with Cons.prems obtain w1 st1 sm1 where one: "a = (w1, Inr (st1, sm1))"
      and rest: "indexFiles env i reindexAll files (w1, st1, sm1) = None"
      by (auto split: prod.splits sum.splits)
    from Cons.IH [OF rest] obtain before fl' after w3 st3 sm3 content where
      found: "files = before @ fl' # after"
        "indexFiles env i reindexAll before (w1, st1, sm1) = Some (w3, Inr (st3, sm3))"
        "readFile env (trace w3) (AbsPath fl') = Inr content"
        "chunkMarkdown (RelPath fl') content (cfgChunkSize (cfg i)) (cfgChunkOverlap (cfg i)) = None"
      by blast
    with Some one have "fl # files = (fl # before) @ fl' # after \<and>
       indexFiles env i reindexAll (fl # before) (w, st, sm) = Some (w3, Inr (st3, sm3)) \<and>
       readFile env (trace w3) (AbsPath fl') = Inr content \<and>
       chunkMarkdown (RelPath fl') content (cfgChunkSize (cfg i)) (cfgChunkOverlap (cfg i)) = None"
      by simp
    then show ?thesis by blast
  qed
qed

lemma stage_calm: "stage w w' True \<Longrightarrow> calm (added w w') \<and> stateFile w' = stateFile w"
  by (auto simp: stage_def added_def)

text \<open>
  Claim C5. The calls to the embedding service and to the vector store are those of the
  trace; the batch size is positive, as the constructor of the client makes it. Either the
  run returns, and then, when one of its calls has failed, it returns an error, the failed
  call is the last call of the run, and the manifest file is as it was. Or the run does not
  return, and then no call has failed: the run has passed over some of the files with every
  call answered, the manifest file is as it was, and the chunker does not return on the
  content of the next file (the defect of the chunker).
\<close>

theorem run_failed_call_aborts:
  assumes "0 < batchSize (embedder i)"
  shows "(\<exists>w' res. run env i opts w = Some (w', res) \<and>
            take (length (trace w)) (trace w') = trace w \<and>
            ((\<exists>e \<in> set (added w w'). failedCall e) \<longrightarrow>
               (\<exists>err. res = Inl err) \<and> stateFile w' = stateFile w \<and>
               failedCall (last (trace w')) \<and> calm (butlast (added w w'))))
       \<or> (run env i opts w = None \<and>
           (\<exists>w2 reindexAll files st2 sm2 before fl after w3 st3 sm3 content.
              runSetup env i opts w = (w2, Inr (reindexAll, files, st2, sm2)) \<and>
              files = before @ fl # after \<and>
              indexFiles env i reindexAll before (w2, st2, sm2) = Some (w3, Inr (st3, sm3)) \<and>
              calm (added w w3) \<and> stateFile w3 = stateFile w \<and>
              readFile env (trace w3) (AbsPath fl) = Inr content \<and>
              chunkMarkdown (RelPath fl) content (cfgChunkSize (cfg i)) (cfgChunkOverlap (cfg i))
                = None))"
proof (cases "run env i opts w")
  case (Some out)
  obtain w' res where out: "out = (w', res)" by (cases out)
  with Some have ran: "run env i opts w = Some (w', res)" by simp
  obtain w2 r2 where prep: "runSetup env i opts w = (w2, r2)" by (cases "runSetup env i opts w")
  note s2 = runSetup_stage [OF prep]
  have st: "(stage w w' False \<and> isl res) \<or> (calm (added w w') \<and> (\<exists>new. trace w' = trace w @ new))"
  proof (cases r2)
    case (Inl err)
    with ran prep s2 show ?thesis by (auto simp: run_def)
  next
    case (Inr p)
    then obtain reindexAll files st3 sm1 where p: "r2 = Inr (reindexAll, files, st3, sm1)"
      by (cases p) auto
    with ran prep obtain w3 r3 where
      pass: "indexFiles env i reindexAll files (w2, st3, sm1) = Some (w3, r3)"
      by (auto simp: run_def split: option.splits)
    note s3 = indexFiles_stage [OF pass]
    show ?thesis
    proof (cases r3)
      case (Inl err)
      with ran prep p pass s2 s3 show ?thesis
        by (auto simp: run_def intro: stage_trans)
    next
      case r3: (Inr q)
      then obtain st4 sm2 where q: "r3 = Inr (st4, sm2)" by (cases q) auto
      with ran prep p pass obtain r4 where "saveIndexState env w3 (stampState i st4) = (w', r4)"
        by (auto simp: run_def split: prod.splits option.splits)
      from saveIndexState_trace [OF this] have "trace w' = trace w3" .
      moreover from s2 s3 p q have "stage w w3 True" by (auto intro: stage_trans)
      ultimately have "calm (added w w') \<and> (\<exists>new. trace w' = trace w @ new)"
        by (auto simp: stage_def added_def)
      then show ?thesis ..
    qed
  qed
  then have ext: "take (length (trace w)) (trace w') = trace w"
    by (auto simp: stage_def)
  have "(\<exists>err. res = Inl err) \<and> stateFile w' = stateFile w \<and>
        failedCall (last (trace w')) \<and> calm (butlast (added w w'))"
    if failed: "\<exists>e \<in> set (added w w'). failedCall e"
  proof -
    from st failed have st': "stage w w' False" and err: "isl res"
      by (auto simp: calm_def)
    then obtain new where new: "trace w' = trace w @ new" "calm (butlast new)"
      and sf: "stateFile w' = stateFile w"
      by (auto simp: stage_def)
    from new(1) have added: "added w w' = new" by (rule added_eq)
    with failed obtain e where e: "e \<in> set new" "failedCall e" by auto
    then have ne: "new \<noteq> []" by auto
    have "e = last new"
    proof (rule ccontr)
      assume "e \<noteq> last new"
      with e(1) ne have "e \<in> set (butlast new)"
        by (metis append_butlast_last_id in_set_conv_decomp_first rotate1.simps(2) set_ConsD set_rotate1)
      with new(2) e(2) show False by (simp add: calm_def)
    qed
    with e ne new have "failedCall (last (trace w'))" by simp
    moreover from err have "\<exists>err. res = Inl err" by (cases res) auto
    ultimately show ?thesis using sf new(2) added by simp
  qed
  with ran ext show ?thesis by blast
next
  case None
  then obtain w2 reindexAll files st2 sm2 where
    prep: "runSetup env i opts w = (w2, Inr (reindexAll, files, st2, sm2))"
    and pass: "indexFiles env i reindexAll files (w2, st2, sm2) = None"
    by (auto simp: run_def split: prod.splits sum.splits option.splits)
  from indexFiles_stuck [OF pass assms] obtain before fl after w3 st3 sm3 content where
    found: "files = before @ fl # after"
      "indexFiles env i reindexAll before (w2, st2, sm2) = Some (w3, Inr (st3, sm3))"
      "readFile env (trace w3) (AbsPath fl) = Inr content"
      "chunkMarkdown (RelPath fl) content (cfgChunkSize (cfg i)) (cfgChunkOverlap (cfg i)) = None"
    by blast
  from runSetup_stage [OF prep] indexFiles_stage [OF found(2)]
  have "stage w w3 True" by (auto intro: stage_trans)
  then have "calm (added w w3) \<and> stateFile w3 = stateFile w" by (rule stage_calm)
  with None prep found show ?thesis by blast
qed


theorem run_failed_call_aborts_witness:
  "0 < batchSize (embedder (sampleIndexer 0))
   \<and> run (sampleEnv (\<lambda>texts. Inl (External ''503''))) (sampleIndexer 0) \<lparr>ReindexAll = False\<rparr>
       \<lparr>trace = [], stateFile = Inr ''manifest''\<rparr>
     = Some (\<lparr>trace =
                [EnsureCollectionCall 2 False None, DeleteByPathCall ''old.md'' None,
                 ReadFileCall ''/vault/b.md'' (Inr ''# B\<newline>world''),
                 DeleteByPathCall ''b.md'' None,
                 EmbedBatchCall [''# B\<newline>world''] (Inl (External ''503''))],
              stateFile = Inr ''manifest''\<rparr>,
             Inl (External ''503''))
   \<and> failedCall (EmbedBatchCall [''# B\<newline>world''] (Inl (External ''503'')) :: nat event)
   \<and> calm [EnsureCollectionCall 2 False None, DeleteByPathCall ''old.md'' None,
            ReadFileCall ''/vault/b.md'' (Inr ''# B\<newline>world''),
            DeleteByPathCall ''b.md'' None :: nat event]
   \<and> run (sampleEnv (\<lambda>texts. Inr []))
         ((sampleIndexer 0)\<lparr>cfg := (cfg (sampleIndexer 0))\<lparr>cfgChunkSize := 2, cfgChunkOverlap := 1\<rparr>\<rparr>)
         \<lparr>ReindexAll = False\<rparr> \<lparr>trace = [], stateFile = Inl (External ''not found'')\<rparr>
     = None
   \<and> chunkMarkdown ''a.md'' ''alpha\<newline>beta'' 2 1 = None
   \<and> (\<exists>fl content.
         fl \<in> set [\<lparr>AbsPath = ''/vault/a.md'', RelPath = ''a.md'', MTime = 7\<rparr>,
                    \<lparr>AbsPath = ''/vault/b.md'', RelPath = ''b.md'', MTime = 9\<rparr>]
         \<and> chunkMarkdown (RelPath fl) content 2 1 = None)"
proof -
  let ?env = "sampleEnv (\<lambda>texts. Inl (External ''503'')) :: nat environment"
  let ?w = "\<lparr>trace = [], stateFile = Inr ''manifest''\<rparr> :: nat world"
  let ?calls = "[EnsureCollectionCall 2 False None, DeleteByPathCall ''old.md'' None,
                 ReadFileCall ''/vault/b.md'' (Inr ''# B\<newline>world''),
                 DeleteByPathCall ''b.md'' None] :: nat event list"
  let ?bad = "EmbedBatchCall [''# B\<newline>world''] (Inl (External ''503'')) :: nat event"
  let ?w' = "\<lparr>trace = ?calls @ [?bad], stateFile = Inr ''manifest''\<rparr> :: nat world"
  have pos: "0 < batchSize (embedder (sampleIndexer 0))"
    by (simp add: sampleIndexer_def NewEmbeddingClient_def)
  have failing: "run ?env (sampleIndexer 0) \<lparr>ReindexAll = False\<rparr> ?w
      = Some (?w', Inl (External ''503''))"
    by code_simp
  have new: "added ?w ?w' = ?calls @ [?bad]"
    by (simp add: added_def)
  have bad: "\<exists>e \<in> set (added ?w ?w'). failedCall e"
    unfolding new by simp
  from run_failed_call_aborts [OF pos, of ?env "\<lparr>ReindexAll = False\<rparr>" ?w] failing bad
  have "stateFile ?w' = stateFile ?w \<and> failedCall (last (trace ?w')) \<and> calm (butlast (added ?w ?w'))"
    by auto
  then have aborted: "failedCall ?bad \<and> calm ?calls"
    unfolding new by simp
  let ?env2 = "sampleEnv (\<lambda>texts. Inr []) :: nat environment"
  let ?i2 = "(sampleIndexer 0)\<lparr>cfg := (cfg (sampleIndexer 0))\<lparr>cfgChunkSize := 2, cfgChunkOverlap := 1\<rparr>\<rparr>"
  let ?w2 = "\<lparr>trace = [], stateFile = Inl (External ''not found'')\<rparr> :: nat world"
  let ?fa = "\<lparr>AbsPath = ''/vault/a.md'', RelPath = ''a.md'', MTime = 7\<rparr>"
  let ?fb = "\<lparr>AbsPath = ''/vault/b.md'', RelPath = ''b.md'', MTime = 9\<rparr>"
  have pos2: "0 < batchSize (embedder ?i2)"
    by (simp add: sampleIndexer_def NewEmbeddingClient_def)
  have prepared: "runSetup ?env2 ?i2 \<lparr>ReindexAll = False\<rparr> ?w2
      = (?w2, Inr (True, [?fa, ?fb], newState, newSummary [?fa, ?fb]))"
    by code_simp
  have lines: "Split ''alpha\<newline>beta'' = [''alpha'', ''beta'']"
    by code_simp
  have stuck: "chunkMarkdown ''a.md'' ''alpha\<newline>beta'' 2 1 = None"
    unfolding chunkMarkdown_def Let_def lines
    by (rule chunkLoop_stuck) simp_all
  have "indexFile ?env2 ?i2 True ?fa (?w2, newState, newSummary [?fa, ?fb]) = None"
    by (simp add: indexFile_def Let_def sampleEnv_def sampleIndexer_def stuck)
  then have never: "run ?env2 ?i2 \<lparr>ReindexAll = False\<rparr> ?w2 = None"
    by (simp add: run_def prepared)
  from run_failed_call_aborts [OF pos2, of ?env2 "\<lparr>ReindexAll = False\<rparr>" ?w2] never
  obtain before fl after w3 st3 sm3 content where
    found: "[?fa, ?fb] = before @ fl # after"
      "indexFiles ?env2 ?i2 True before (?w2, newState, newSummary [?fa, ?fb])
         = Some (w3, Inr (st3, sm3))"
      "readFile ?env2 (trace w3) (AbsPath fl) = Inr content"
      "chunkMarkdown (RelPath fl) content (cfgChunkSize (cfg ?i2)) (cfgChunkOverlap (cfg ?i2)) = None"
    unfolding prepared by auto
  from found(1) have "fl \<in> set [?fa, ?fb]"
    by (metis in_set_conv_decomp)
  moreover from found(4) have "chunkMarkdown (RelPath fl) content 2 1 = None"
    by (simp add: sampleIndexer_def)
  ultimately have hangs: "\<exists>fl content. fl \<in> set [?fa, ?fb]
      \<and> chunkMarkdown (RelPath fl) content 2 1 = None"
    by blast
  from pos failing aborted never stuck hangs show ?thesis by simp
qed
subsection \<open>Unchanged files: the counters of the summary do not steer the pass\<close>

lemma withSkipped_Inl [simp]: "withSkipped n (w, Inl err) = (w, Inl err)"
  by (simp add: withSkipped_def)

lemma withSkipped_Inr [simp]:
  "withSkipped n (w, Inr (st, sm)) = (w, Inr (st, moreSkipped n sm))"
  by (simp add: withSkipped_def)

lemma moreSkipped_0 [simp]: "moreSkipped 0 sm = sm"
  by (simp add: moreSkipped_def)

lemma moreSkipped_add: "moreSkipped a (moreSkipped b sm) = moreSkipped (a + b) sm"
  by (simp add: moreSkipped_def)

lemma withSkipped_0 [simp]: "withSkipped 0 out = out"
  by (auto simp: withSkipped_def split: prod.splits sum.splits)

lemma withSkipped_add: "withSkipped a (withSkipped b out) = withSkipped (a + b) out"
  by (auto simp: withSkipped_def moreSkipped_add split: prod.splits sum.splits)

lemma upsertBatch_skipped:
  "upsertBatch env fl batch embeddings (w, st, moreSkipped n sm)
     = withSkipped n (upsertBatch env fl batch embeddings (w, st, sm))"
  by (simp add: upsertBatch_def Let_def moreSkipped_def split: option.splits)

lemma embedBatchStep_skipped:
  "embedBatchStep env i reindexAll fl batch (w, st, moreSkipped n sm)
     = withSkipped n (embedBatchStep env i reindexAll fl batch (w, st, sm))"
  by (simp add: embedBatchStep_def Let_def upsertBatch_skipped split: sum.splits prod.splits)


lemma embedLoop_skipped:
  "embedLoop env i reindexAll fl chunks start (w, st, moreSkipped n sm)
     = map_option (withSkipped n) (embedLoop env i reindexAll fl chunks start (w, st, sm))"
proof (induction env i reindexAll fl chunks start "(w, st, sm)" arbitrary: w st sm
    rule: embedLoop.induct)
  case (1 env i reindexAll fl chunks start)
  show ?case
  proof (cases "batchSize (embedder i) \<le> 0")
    case True
    then show ?thesis by (simp add: embedLoop_unfold [of env i reindexAll fl chunks start])
  next
    case pos: False
    show ?thesis
    proof (cases "start < length chunks")
      case False
      with pos show ?thesis
        by (simp add: embedLoop_unfold [of env i reindexAll fl chunks start])
    next
      case True
      define e where "e = (if start + nat (batchSize (embedder i)) > length chunks then length chunks
                   else start + nat (batchSize (embedder i)))"
      define batch where "batch = take (e - start) (drop start chunks)"
      obtain w1 r1 where step: "embedBatchStep env i reindexAll fl batch (w, st, sm) = (w1, r1)"
        by (cases "embedBatchStep env i reindexAll fl batch (w, st, sm)")
      then have step': "embedBatchStep env i reindexAll fl batch (w, st, moreSkipped n sm)
          = withSkipped n (w1, r1)"
        by (simp add: embedBatchStep_skipped)
      show ?thesis
      proof (cases r1)
        case (Inl err)
        with pos True step step' show ?thesis
          by (simp add: embedLoop_unfold [of env i reindexAll fl chunks start]
              e_def [symmetric] batch_def [symmetric])
      next
        case (Inr progress)
        obtain st1 sm1 where progress: "progress = (st1, sm1)" by (cases progress)
        have IH: "embedLoop env i reindexAll fl chunks (start + nat (batchSize (embedder i)))
                    (w1, st1, moreSkipped n sm1)
              = map_option (withSkipped n)
                  (embedLoop env i reindexAll fl chunks (start + nat (batchSize (embedder i)))
                     (w1, st1, sm1))"
          by (rule "1.hyps" [OF pos True e_def batch_def step [symmetric] Inr [unfolded progress]])
        from pos True step step' Inr progress IH show ?thesis
          by (simp add: embedLoop_unfold [of env i reindexAll fl chunks start]
              e_def [symmetric] batch_def [symmetric])
      qed
    qed
  qed
qed

lemma moreSkipped_counters:
  "(moreSkipped n sm)\<lparr>SkippedFiles := SkippedFiles (moreSkipped n sm) + 1\<rparr>
     = moreSkipped n (sm\<lparr>SkippedFiles := SkippedFiles sm + 1\<rparr>)"
  "(moreSkipped n sm)\<lparr>UpdatedFiles := UpdatedFiles (moreSkipped n sm) + 1\<rparr>
     = moreSkipped n (sm\<lparr>UpdatedFiles := UpdatedFiles sm + 1\<rparr>)"
  "(moreSkipped n sm)\<lparr>IndexedFiles := IndexedFiles (moreSkipped n sm) + 1\<rparr>
     = moreSkipped n (sm\<lparr>IndexedFiles := IndexedFiles sm + 1\<rparr>)"
  by (simp_all add: moreSkipped_def)

lemma indexChunks_skipped:
  "indexChunks env i reindexAll fl chunks (w, st, moreSkipped n sm)
     = map_option (withSkipped n) (indexChunks env i reindexAll fl chunks (w, st, sm))"
  by (auto simp: indexChunks_def Let_def embedLoop_skipped moreSkipped_counters
      split: option.splits sum.splits prod.splits)

lemma indexFile_skipped:
  "indexFile env i reindexAll fl (w, st, moreSkipped n sm)
     = map_option (withSkipped n) (indexFile env i reindexAll fl (w, st, sm))"
  by (auto simp: indexFile_def Let_def indexChunks_skipped moreSkipped_counters
      split: option.splits sum.splits)

lemma indexFiles_skipped:
  "indexFiles env i reindexAll files (w, st, moreSkipped n sm)
     = map_option (withSkipped n) (indexFiles env i reindexAll files (w, st, sm))"
proof (induction files arbitrary: w st sm)
  case Nil
  show ?case by simp
next
  case (Cons fl files)
  show ?case
  proof (cases "indexFile env i reindexAll fl (w, st, sm)")
    case None
    then show ?thesis by (simp add: indexFile_skipped)
  next
    case (Some out)
    obtain w1 r1 where out: "out = (w1, r1)" by (cases out)
    show ?thesis
    proof (cases r1)
      case (Inl err)
      with Some out show ?thesis by (simp add: indexFile_skipped)
    next
      case (Inr p)
      obtain st1 sm1 where "p = (st1, sm1)" by (cases p)
      with Some out Inr Cons.IH [of w1 st1 sm1] show ?thesis
        by (simp add: indexFile_skipped)
    qed
  qed
qed

subsection \<open>The pass over a file changes the manifest at the path of the file only\<close>

lemma ensureCollection_Files:
  "ensureCollection env i reindexAll dim (w, st) = (w', Inr st') \<Longrightarrow> Files st' = Files st"
  by (auto simp: ensureCollection_def Let_def split: if_splits option.splits)

lemma resolveDimension_Files:
  "resolveDimension env i reindexAll embeddings (w, st) = (w', Inr st') \<Longrightarrow> Files st' = Files st"
  by (auto simp: resolveDimension_def Let_def dest: ensureCollection_Files split: if_splits)

lemma embedBatchStep_Files:
  "embedBatchStep env i reindexAll fl batch (w, st, sm) = (w', Inr (st', sm')) \<Longrightarrow>
     Files st' = Files st"
  by (auto simp: embedBatchStep_def upsertBatch_def Let_def dest: resolveDimension_Files
      split: if_splits option.splits sum.splits prod.splits)

lemma embedLoop_Files:
  "embedLoop env i reindexAll fl chunks start (w, st, sm) = Some (w', Inr (st', sm')) \<Longrightarrow>
     Files st' = Files st"
proof (induction env i reindexAll fl chunks start "(w, st, sm)" arbitrary: w st sm
    rule: embedLoop.induct)
  case (1 env i reindexAll fl chunks start)
  from "1.prems" have pos: "\<not> batchSize (embedder i) \<le> 0"
    by (subst (asm) embedLoop_unfold) (auto split: if_splits)
  show ?case
  proof (cases "start < length chunks")
    case False
    with "1.prems" pos show ?thesis
      by (subst (asm) embedLoop_unfold) auto
  next
    case True
    define e where "e = (if start + nat (batchSize (embedder i)) > length chunks then length chunks
                   else start + nat (batchSize (embedder i)))"
    define batch where "batch = take (e - start) (drop start chunks)"
    obtain w1 r1 where step: "embedBatchStep env i reindexAll fl batch (w, st, sm) = (w1, r1)"
      by (cases "embedBatchStep env i reindexAll fl batch (w, st, sm)")
    from "1.prems" pos True step have unf:
      "(case r1 of Inl err \<Rightarrow> Some (w1, Inl err)
        | Inr progress \<Rightarrow> embedLoop env i reindexAll fl chunks
               (start + nat (batchSize (embedder i))) (w1, progress)) = Some (w', Inr (st', sm'))"
      by (subst (asm) embedLoop_unfold) (simp add: e_def batch_def)
    show ?thesis
    proof (cases r1)
      case (Inl err)
      with unf show ?thesis by simp
    next
      case (Inr progress)
      obtain st1 sm1 where progress: "progress = (st1, sm1)" by (cases progress)
      with unf Inr have "embedLoop env i reindexAll fl chunks
               (start + nat (batchSize (embedder i))) (w1, st1, sm1) = Some (w', Inr (st', sm'))"
        by simp
      from "1.hyps" [OF pos True e_def batch_def step [symmetric] Inr [unfolded progress] this]
      have "Files st' = Files st1" .
      moreover from step Inr progress have "Files st1 = Files st"
        by (auto dest: embedBatchStep_Files)
      ultimately show ?thesis by simp
    qed
  qed
qed

lemma indexChunks_Files:
  assumes "indexChunks env i reindexAll fl chunks (w, st, sm) = Some (w', Inr (st', sm'))"
  shows "Files st' = AList.update (RelPath fl) (MTime fl) (Files st)"
  using assms
  by (auto simp: indexChunks_def Let_def dest: embedLoop_Files
      split: if_splits option.splits sum.splits prod.splits)

lemma indexFile_Files:
  assumes "indexFile env i reindexAll fl (w, st, sm) = Some (w', Inr (st', sm'))"
  shows "Files st' = Files st \<or> Files st' = AList.update (RelPath fl) (MTime fl) (Files st)"
  using assms
  by (auto simp: indexFile_def Let_def dest: indexChunks_Files
      split: if_splits option.splits sum.splits)

lemma indexFile_frame:
  assumes "indexFile env i reindexAll fl (w, st, sm) = Some (w', Inr (st', sm'))"
    and "RelPath g \<noteq> RelPath fl"
  shows "unchangedFile st' g = unchangedFile st g"
  using indexFile_Files [OF assms(1)] assms(2)
  by (auto simp: unchangedFile_def update_conv')


lemma indexFile_unchanged:
  "\<not> reindexAll \<Longrightarrow> unchangedFile st fl \<Longrightarrow>
     indexFile env i reindexAll fl (w, st, sm) = Some (w, Inr (st, moreSkipped 1 sm))"
  by (simp add: indexFile_def unchangedFile_def moreSkipped_def)

lemma map_option_withSkipped:
  "map_option (withSkipped a) (map_option (withSkipped b) x) = map_option (withSkipped (a + b)) x"
  by (cases x) (simp_all add: withSkipped_add)

text \<open>The pass over the files is the pass over the changed files, but for the counter.\<close>

lemma indexFiles_erasure:
  assumes "distinct (map RelPath files)"
  shows "indexFiles env i False files (w, st, sm)
     = map_option (withSkipped (int (length (filter (unchangedFile st) files))))
         (indexFiles env i False (filter (\<lambda>f. \<not> unchangedFile st f) files) (w, st, sm))"
  using assms
proof (induction files arbitrary: w st sm)
  case Nil
  show ?case by (simp add: option.map_ident)
next
  case (Cons fl files)
  from Cons.prems have d: "distinct (map RelPath files)" and nf: "\<forall>g \<in> set files. RelPath g \<noteq> RelPath fl"
    by (auto simp: image_iff)
  show ?case
  proof (cases "unchangedFile st fl")
    case True
    have "indexFiles env i False (fl # files) (w, st, sm)
        = indexFiles env i False files (w, st, moreSkipped 1 sm)"
      by (simp add: indexFile_unchanged [OF _ True])
    also have "\<dots> = map_option (withSkipped 1) (indexFiles env i False files (w, st, sm))"
      by (rule indexFiles_skipped)
    also have "\<dots> = map_option (withSkipped (1 + int (length (filter (unchangedFile st) files))))
         (indexFiles env i False (filter (\<lambda>f. \<not> unchangedFile st f) files) (w, st, sm))"
      by (simp add: Cons.IH [OF d] map_option_withSkipped)
    finally show ?thesis using True by simp
  next
    case False
    show ?thesis
    proof (cases "indexFile env i False fl (w, st, sm)")
      case None
      with False show ?thesis by simp
    next
      case (Some out)
      obtain w1 r1 where out: "out = (w1, r1)" by (cases out)
      show ?thesis
      proof (cases r1)
        case (Inl err)
        with Some out False show ?thesis by simp
      next
        case (Inr p)
        obtain st1 sm1 where p: "p = (st1, sm1)" by (cases p)
        from Some out Inr p have one: "indexFile env i False fl (w, st, sm) = Some (w1, Inr (st1, sm1))"
          by simp
        have same: "\<forall>g \<in> set files. unchangedFile st1 g = unchangedFile st g"
          using indexFile_frame [OF one] nf by blast
        then have f1: "filter (unchangedFile st1) files = filter (unchangedFile st) files"
          and f2: "filter (\<lambda>f. \<not> unchangedFile st1 f) files = filter (\<lambda>f. \<not> unchangedFile st f) files"
          by (auto intro: filter_cong)
        from one False Cons.IH [OF d, of w1 st1 sm1] show ?thesis
          by (simp add: f1 f2)
      qed
    qed
  qed
qed

subsection \<open>The setup keeps the entries of the files that exist\<close>

lemma currentFilesOf_None:
  "currentFilesOf files m p = None \<longleftrightarrow> p \<notin> RelPath ` set files \<and> m p = None"
  by (induction files arbitrary: m) auto

lemma removalPass_frame:
  "removalPass env cur paths (w, st, sm) = (w', Inr (st', sm')) \<Longrightarrow> cur p \<noteq> None \<Longrightarrow>
     map_of (Files st') p = map_of (Files st) p"
proof (induction paths arbitrary: w st sm)
  case Nil
  then show ?case by simp
next
  case (Cons q qs)
  show ?case
  proof (cases "cur q = None")
    case False
    with Cons show ?thesis by simp
  next
    case True
    with Cons.prems obtain w1 where
      "removalPass env cur qs (w1, st\<lparr>Files := AList.delete q (Files st)\<rparr>,
         sm\<lparr>RemovedFiles := RemovedFiles sm + 1\<rparr>) = (w', Inr (st', sm'))"
      by (auto simp: Let_def split: option.splits)
    from Cons.IH [OF this Cons.prems(2)] True Cons.prems(2) show ?thesis
      by (auto simp: delete_conv')
  qed
qed

lemma ensureInitial_Files:
  "ensureInitial env i reindexAll (w, st) = (w', Inr st') \<Longrightarrow> Files st' = Files st"
  by (auto simp: ensureInitial_def Let_def dest: ensureCollection_Files split: if_splits)

lemma prepareIndex_frame:
  assumes "prepareIndex env i False files st w = (w', Inr (st', sm'))" and "fl \<in> set files"
  shows "unchangedFile st' fl = unchangedFile st fl"
proof -
  obtain w1 r1 where e: "ensureInitial env i False (w, st) = (w1, r1)"
    by (cases "ensureInitial env i False (w, st)")
  with assms(1) obtain st1 where r1: "r1 = Inr st1"
    and pass: "removalPass env (currentFilesOf files Map.empty) (map fst (Files st1))
          (w1, st1, newSummary files) = (w', Inr (st', sm'))"
    by (cases r1) (auto simp: prepareIndex_def Let_def)
  from e r1 have "Files st1 = Files st" by (auto dest: ensureInitial_Files)
  moreover from assms(2) have "currentFilesOf files Map.empty (RelPath fl) \<noteq> None"
    by (simp add: currentFilesOf_None)
  ultimately show ?thesis
    using removalPass_frame [OF pass] by (simp add: unchangedFile_def)
qed

text \<open>
  Claim C6. In a run that does not rebuild everything, the time that the per-file pass
  compares with is the one of the manifest as loaded; the loop body, on a file whose
  time is unchanged, adds one to \<open>SkippedFiles\<close> and leaves the world (no read, no call) and
  the manifest as they are; and the whole pass is the pass over the other files alone,
  with the unchanged files counted in \<open>SkippedFiles\<close> (the walk lists each path once).
\<close>

theorem unchanged_files_are_skipped:
  "(runSetup env i opts w = (w2, Inr (False, files, st3, sm1)) \<and> loadIndexState env w = Inr st0
      \<and> fl \<in> set files \<longrightarrow> unchangedFile st3 fl = unchangedFile st0 fl)
   \<and> (\<not> reindexAll \<and> unchangedFile st fl \<longrightarrow>
        indexFile env i reindexAll fl (w, st, sm)
          = Some (w, Inr (st, sm\<lparr>SkippedFiles := SkippedFiles sm + 1\<rparr>)))
   \<and> (distinct (map RelPath files) \<longrightarrow>
        indexFiles env i False files (w, st, sm)
          = (case indexFiles env i False (filter (\<lambda>f. \<not> unchangedFile st f) files) (w, st, sm) of
               None \<Rightarrow> None
             | Some (w', Inl err) \<Rightarrow> Some (w', Inl err)
             | Some (w', Inr (st', sm')) \<Rightarrow>
                 Some (w', Inr (st', sm'\<lparr>SkippedFiles := SkippedFiles sm'
                          + int (length (filter (unchangedFile st) files))\<rparr>))))"
proof (intro conjI impI)
  assume a: "runSetup env i opts w = (w2, Inr (False, files, st3, sm1))
      \<and> loadIndexState env w = Inr st0 \<and> fl \<in> set files"
  then have "runSetup env i opts w = (w2, Inr (False, files, st3, sm1))" by simp
  then show "unchangedFile st3 fl = unchangedFile st0 fl"
  proof (cases rule: runSetup_cases)
    case early
    then show ?thesis by simp
  next
    case (prepared files' r)
    with a have "prepareIndex env i False files st0 w = (w2, Inr (st3, sm1))"
      by (auto split: sum.splits)
    from prepareIndex_frame [OF this] a show ?thesis by simp
  qed
next
  assume "\<not> reindexAll \<and> unchangedFile st fl"
  then show "indexFile env i reindexAll fl (w, st, sm)
          = Some (w, Inr (st, sm\<lparr>SkippedFiles := SkippedFiles sm + 1\<rparr>))"
    by (simp add: indexFile_unchanged moreSkipped_def)
next
  assume "distinct (map RelPath files)"
  from indexFiles_erasure [OF this, of env i w st sm]
  show "indexFiles env i False files (w, st, sm)
          = (case indexFiles env i False (filter (\<lambda>f. \<not> unchangedFile st f) files) (w, st, sm) of
               None \<Rightarrow> None
             | Some (w', Inl err) \<Rightarrow> Some (w', Inl err)
             | Some (w', Inr (st', sm')) \<Rightarrow>
                 Some (w', Inr (st', sm'\<lparr>SkippedFiles := SkippedFiles sm'
                          + int (length (filter (unchangedFile st) files))\<rparr>)))"
    by (auto simp: withSkipped_def moreSkipped_def split: option.splits sum.splits prod.splits)
qed

theorem unchanged_files_are_skipped_witness:
  "runSetup (sampleEnv (\<lambda>texts. Inr (map (\<lambda>t. [0, 0]) texts))) (sampleIndexer 0)
       \<lparr>ReindexAll = False\<rparr> \<lparr>trace = [], stateFile = Inr ''manifest''\<rparr>
     = (\<lparr>trace = [EnsureCollectionCall 2 False None, DeleteByPathCall ''old.md'' None],
         stateFile = Inr ''manifest''\<rparr>,
        Inr (False,
             [\<lparr>AbsPath = ''/vault/a.md'', RelPath = ''a.md'', MTime = 7\<rparr>,
              \<lparr>AbsPath = ''/vault/b.md'', RelPath = ''b.md'', MTime = 9\<rparr>],
             sampleManifest\<lparr>Files := [(''a.md'', 7), (''b.md'', 8)]\<rparr>,
             \<lparr>TotalFiles = 2, IndexedFiles = 0, UpdatedFiles = 0, RemovedFiles = 1,
              SkippedFiles = 0, Chunks = 0\<rparr>))
   \<and> unchangedFile (sampleManifest\<lparr>Files := [(''a.md'', 7), (''b.md'', 8)]\<rparr>)
        \<lparr>AbsPath = ''/vault/a.md'', RelPath = ''a.md'', MTime = 7\<rparr>
   \<and> indexFile (sampleEnv (\<lambda>texts. Inr (map (\<lambda>t. [0, 0]) texts))) (sampleIndexer 0) False
        \<lparr>AbsPath = ''/vault/a.md'', RelPath = ''a.md'', MTime = 7\<rparr>
        (\<lparr>trace = [EnsureCollectionCall 2 False None, DeleteByPathCall ''old.md'' None],
          stateFile = Inr ''manifest''\<rparr>,
         sampleManifest\<lparr>Files := [(''a.md'', 7), (''b.md'', 8)]\<rparr>,
         \<lparr>TotalFiles = 2, IndexedFiles = 0, UpdatedFiles = 0, RemovedFiles = 1,
          SkippedFiles = 0, Chunks = 0\<rparr>)
     = Some (\<lparr>trace = [EnsureCollectionCall 2 False None, DeleteByPathCall ''old.md'' None],
              stateFile = Inr ''manifest''\<rparr>,
             Inr (sampleManifest\<lparr>Files := [(''a.md'', 7), (''b.md'', 8)]\<rparr>,
                  \<lparr>TotalFiles = 2, IndexedFiles = 0, UpdatedFiles = 0, RemovedFiles = 1,
                   SkippedFiles = 1, Chunks = 0\<rparr>))
   \<and> indexFiles (sampleEnv (\<lambda>texts. Inr (map (\<lambda>t. [0, 0]) texts))) (sampleIndexer 0) False
        [\<lparr>AbsPath = ''/vault/a.md'', RelPath = ''a.md'', MTime = 7\<rparr>,
         \<lparr>AbsPath = ''/vault/b.md'', RelPath = ''b.md'', MTime = 9\<rparr>]
        (\<lparr>trace = [EnsureCollectionCall 2 False None, DeleteByPathCall ''old.md'' None],
          stateFile = Inr ''manifest''\<rparr>,
         sampleManifest\<lparr>Files := [(''a.md'', 7), (''b.md'', 8)]\<rparr>,
         \<lparr>TotalFiles = 2, IndexedFiles = 0, UpdatedFiles = 0, RemovedFiles = 1,
          SkippedFiles = 0, Chunks = 0\<rparr>)
     = Some (\<lparr>trace =
                [EnsureCollectionCall 2 False None, DeleteByPathCall ''old.md'' None,
                 ReadFileCall ''/vault/b.md'' (Inr ''# B\<newline>world''),
                 DeleteByPathCall ''b.md'' None,
                 EmbedBatchCall [''# B\<newline>world''] (Inr [[0, 0]]),
                 UpsertCall
                  [\<lparr>ID = ''b.md:1:2'', Vector = [0, 0],
                    Payload = \<lparr>payloadPath = ''b.md'', payloadHeading = ''B'',
                               payloadStartLine = 1, payloadEndLine = 2,
                               payloadContent = ''# B\<newline>world'', payloadMTime = 9\<rparr>\<rparr>]
                  None],
              stateFile = Inr ''manifest''\<rparr>,
             Inr (sampleManifest\<lparr>Files := [(''a.md'', 7), (''b.md'', 9)]\<rparr>,
                  \<lparr>TotalFiles = 2, IndexedFiles = 0, UpdatedFiles = 1, RemovedFiles = 1,
                   SkippedFiles = 1, Chunks = 1\<rparr>))"
proof -
  let ?env = "sampleEnv (\<lambda>texts. Inr (map (\<lambda>t. [0, 0]) texts)) :: nat environment"
  let ?w = "\<lparr>trace = [], stateFile = Inr ''manifest''\<rparr> :: nat world"
  let ?w2 = "\<lparr>trace = [EnsureCollectionCall 2 False None, DeleteByPathCall ''old.md'' None],
         stateFile = Inr ''manifest''\<rparr> :: nat world"
  let ?fa = "\<lparr>AbsPath = ''/vault/a.md'', RelPath = ''a.md'', MTime = 7\<rparr>"
  let ?fb = "\<lparr>AbsPath = ''/vault/b.md'', RelPath = ''b.md'', MTime = 9\<rparr>"
  let ?st3 = "sampleManifest\<lparr>Files := [(''a.md'', 7), (''b.md'', 8)]\<rparr>"
  let ?sm1 = "\<lparr>TotalFiles = 2, IndexedFiles = 0, UpdatedFiles = 0, RemovedFiles = 1,
              SkippedFiles = 0, Chunks = 0\<rparr>"
  note inst = unchanged_files_are_skipped
    [where env = ?env and i = "sampleIndexer 0" and opts = "\<lparr>ReindexAll = False\<rparr>"
       and w = ?w2 and ?w2.0 = ?w2 and files = "[?fa, ?fb]" and ?st3.0 = ?st3 and ?sm1.0 = ?sm1
       and ?st0.0 = sampleManifest and fl = ?fa and reindexAll = False and st = ?st3 and sm = ?sm1]
  have prepared: "runSetup ?env (sampleIndexer 0) \<lparr>ReindexAll = False\<rparr> ?w
      = (?w2, Inr (False, [?fa, ?fb], ?st3, ?sm1))"
    by code_simp
  have loaded: "loadIndexState ?env ?w = Inr sampleManifest"
    by (simp add: loadIndexState_def sampleEnv_def)
  have "unchangedFile ?st3 ?fa = unchangedFile sampleManifest ?fa"
    by (rule mp [OF unchanged_files_are_skipped
          [where env = ?env and i = "sampleIndexer 0" and opts = "\<lparr>ReindexAll = False\<rparr>"
             and w = ?w and ?w2.0 = ?w2 and files = "[?fa, ?fb]" and ?st3.0 = ?st3
             and ?sm1.0 = ?sm1 and ?st0.0 = sampleManifest and fl = ?fa, THEN conjunct1]])
       (simp add: prepared loaded)
  moreover have "unchangedFile sampleManifest ?fa"
    by (simp add: unchangedFile_def sampleManifest_def)
  ultimately have ua: "unchangedFile ?st3 ?fa" by simp
  have ub: "\<not> unchangedFile ?st3 ?fb"
    by (simp add: unchangedFile_def)
  have one: "indexFile ?env (sampleIndexer 0) False ?fa (?w2, ?st3, ?sm1)
      = Some (?w2, Inr (?st3, ?sm1\<lparr>SkippedFiles := SkippedFiles ?sm1 + 1\<rparr>))"
    using inst [THEN conjunct2, THEN conjunct1] ua by simp
  have others: "indexFiles ?env (sampleIndexer 0) False [?fb] (?w2, ?st3, ?sm1)
      = Some (\<lparr>trace =
                [EnsureCollectionCall 2 False None, DeleteByPathCall ''old.md'' None,
                 ReadFileCall ''/vault/b.md'' (Inr ''# B\<newline>world''),
                 DeleteByPathCall ''b.md'' None,
                 EmbedBatchCall [''# B\<newline>world''] (Inr [[0, 0]]),
                 UpsertCall
                  [\<lparr>ID = ''b.md:1:2'', Vector = [0, 0],
                    Payload = \<lparr>payloadPath = ''b.md'', payloadHeading = ''B'',
                               payloadStartLine = 1, payloadEndLine = 2,
                               payloadContent = ''# B\<newline>world'', payloadMTime = 9\<rparr>\<rparr>]
                  None],
              stateFile = Inr ''manifest''\<rparr>,
             Inr (sampleManifest\<lparr>Files := [(''a.md'', 7), (''b.md'', 9)]\<rparr>,
                  \<lparr>TotalFiles = 2, IndexedFiles = 0, UpdatedFiles = 1, RemovedFiles = 1,
                   SkippedFiles = 0, Chunks = 1\<rparr>))"
    by code_simp
  have "distinct (map RelPath [?fa, ?fb])" by simp
  from mp [OF inst [THEN conjunct2, THEN conjunct2] this]
  have all: "indexFiles ?env (sampleIndexer 0) False [?fa, ?fb] (?w2, ?st3, ?sm1)
      = Some (\<lparr>trace =
                [EnsureCollectionCall 2 False None, DeleteByPathCall ''old.md'' None,
                 ReadFileCall ''/vault/b.md'' (Inr ''# B\<newline>world''),
                 DeleteByPathCall ''b.md'' None,
                 EmbedBatchCall [''# B\<newline>world''] (Inr [[0, 0]]),
                 UpsertCall
                  [\<lparr>ID = ''b.md:1:2'', Vector = [0, 0],
                    Payload = \<lparr>payloadPath = ''b.md'', payloadHeading = ''B'',
                               payloadStartLine = 1, payloadEndLine = 2,
                               payloadContent = ''# B\<newline>world'', payloadMTime = 9\<rparr>\<rparr>]
                  None],
              stateFile = Inr ''manifest''\<rparr>,
             Inr (sampleManifest\<lparr>Files := [(''a.md'', 7), (''b.md'', 9)]\<rparr>,
                  \<lparr>TotalFiles = 2, IndexedFiles = 0, UpdatedFiles = 1, RemovedFiles = 1,
                   SkippedFiles = 1, Chunks = 1\<rparr>))"
    unfolding filter.simps using ua ub others
    by (simp del: indexFiles.simps)
  from prepared ua one all show ?thesis by simp
qed


subsection \<open>Removed files\<close>

lemma adds_refl: "adds Q w w"
  by (simp add: adds_def)

lemma adds_trans: "adds Q w w1 \<Longrightarrow> adds Q w1 w2 \<Longrightarrow> adds Q w w2"
  by (fastforce simp: adds_def)

lemma adds_record: "Q e \<Longrightarrow> adds Q w (record_event w e)"
  by (simp add: adds_def record_event_def)

lemma ensureCollection_adds:
  "ensureCollection env i reindexAll dim (w, st) = (w', res) \<Longrightarrow> adds (deletesIn S) w w'"
  by (auto simp: ensureCollection_def Let_def adds_refl adds_record
      split: if_splits option.splits)

lemma ensureInitial_adds:
  "ensureInitial env i reindexAll (w, st) = (w', res) \<Longrightarrow> adds (deletesIn S) w w'"
  by (auto simp: ensureInitial_def Let_def adds_refl dest: ensureCollection_adds
      split: if_splits)

lemma resolveDimension_adds:
  "resolveDimension env i reindexAll embeddings (w, st) = (w', res) \<Longrightarrow> adds (deletesIn S) w w'"
  by (auto simp: resolveDimension_def Let_def adds_refl dest: ensureCollection_adds
      split: if_splits)

lemma upsertBatch_adds:
  "upsertBatch env fl batch embeddings (w, st, sm) = (w', res) \<Longrightarrow> adds (deletesIn S) w w'"
  by (auto simp: upsertBatch_def Let_def adds_record split: option.splits)

lemma embedBatchStep_adds:
  assumes "embedBatchStep env i reindexAll fl batch (w, st, sm) = (w', res)"
  shows "adds (deletesIn S) w w'"
proof -
  define w1 where "w1 = record_event w (EmbedBatchCall (map Content batch)
      (embedBatch env (trace w) (map Content batch)))"
  have a1: "adds (deletesIn S) w w1" by (simp add: w1_def adds_record)
  show ?thesis
  proof (cases "embedBatch env (trace w) (map Content batch)")
    case (Inl err)
    with assms a1 show ?thesis
      by (auto simp: embedBatchStep_def Let_def w1_def)
  next
    case (Inr embeddings)
    show ?thesis
    proof (cases "length embeddings \<noteq> length batch")
      case True
      with assms Inr a1 show ?thesis
        by (auto simp: embedBatchStep_def Let_def w1_def)
    next
      case False
      obtain w2 r2 where e: "resolveDimension env i reindexAll embeddings (w1, st) = (w2, r2)"
        by (cases "resolveDimension env i reindexAll embeddings (w1, st)")
      note a2 = adds_trans [OF a1 resolveDimension_adds [OF e]]
      show ?thesis
      proof (cases r2)
        case (Inl err)
        with assms Inr False e a2 show ?thesis
          by (auto simp: embedBatchStep_def Let_def w1_def)
      next
        case r2: (Inr st')
        with assms Inr False e have "upsertBatch env fl batch embeddings (w2, st', sm) = (w', res)"
          by (auto simp: embedBatchStep_def Let_def w1_def)
        from adds_trans [OF a2 upsertBatch_adds [OF this]] show ?thesis .
      qed
    qed
  qed
qed

lemma embedLoop_adds:
  "embedLoop env i reindexAll fl chunks start wss = Some (w', res) \<Longrightarrow>
     adds (deletesIn S) (fst wss) w'"
proof (induction env i reindexAll fl chunks start wss rule: embedLoop.induct)
  case (1 env i reindexAll fl chunks start wss)
  obtain w st sm where wss: "wss = (w, st, sm)" by (cases wss)
  from "1.prems" have pos: "\<not> batchSize (embedder i) \<le> 0"
    by (subst (asm) embedLoop_unfold) (auto split: if_splits)
  show ?case
  proof (cases "start < length chunks")
    case False
    with "1.prems" pos show ?thesis
      by (subst (asm) embedLoop_unfold) (auto simp: adds_refl)
  next
    case True
    define e where "e = (if start + nat (batchSize (embedder i)) > length chunks then length chunks
                   else start + nat (batchSize (embedder i)))"
    define batch where "batch = take (e - start) (drop start chunks)"
    obtain w1 r1 where step: "embedBatchStep env i reindexAll fl batch wss = (w1, r1)"
      by (cases "embedBatchStep env i reindexAll fl batch wss")
    have a1: "adds (deletesIn S) w w1"
      using step embedBatchStep_adds wss by metis
    from "1.prems" pos True step have unf:
      "(case r1 of Inl err \<Rightarrow> Some (w1, Inl err)
        | Inr progress \<Rightarrow> embedLoop env i reindexAll fl chunks
               (start + nat (batchSize (embedder i))) (w1, progress)) = Some (w', res)"
      by (subst (asm) embedLoop_unfold) (simp add: e_def batch_def)
    show ?thesis
    proof (cases r1)
      case (Inl err)
      with unf a1 wss show ?thesis by auto
    next
      case (Inr progress)
      with unf have next_round:
        "embedLoop env i reindexAll fl chunks (start + nat (batchSize (embedder i)))
           (w1, progress) = Some (w', res)"
        by simp
      have "adds (deletesIn S) (fst (w1, progress)) w'"
        by (rule "1.IH" [OF pos True e_def batch_def step [symmetric] Inr next_round])
      with a1 wss show ?thesis
        by (auto intro: adds_trans)
    qed
  qed
qed

lemma indexChunks_adds:
  assumes "indexChunks env i reindexAll fl chunks (w, st, sm) = Some (w', res)"
    and "RelPath fl \<in> S"
  shows "adds (deletesIn S) w w'"
proof (cases "length chunks = 0")
  case True
  with assms show ?thesis by (auto simp: indexChunks_def adds_refl)
next
  case False
  define w2 where "w2 = record_event w (DeleteByPathCall (RelPath fl)
      (deleteByPath env (trace w) (RelPath fl)))"
  have a1: "adds (deletesIn S) w w2" using assms(2) by (simp add: w2_def adds_record)
  show ?thesis
  proof (cases "deleteByPath env (trace w) (RelPath fl)")
    case (Some err)
    with assms False a1 show ?thesis
      by (auto simp: indexChunks_def Let_def w2_def)
  next
    case None
    with assms False obtain r3 where
      "embedLoop env i reindexAll fl chunks 0 (w2, st, sm) = Some (w', r3)"
      by (auto simp: indexChunks_def Let_def w2_def split: option.splits sum.splits)
    from embedLoop_adds [OF this] a1 show ?thesis
      by (auto intro: adds_trans)
  qed
qed

lemma indexFile_adds:
  assumes "indexFile env i reindexAll fl (w, st, sm) = Some (w', res)" and "RelPath fl \<in> S"
  shows "adds (deletesIn S) w w'"
proof (cases "\<not> reindexAll \<and> map_of (Files st) (RelPath fl) = Some (MTime fl)")
  case True
  with assms show ?thesis by (auto simp: indexFile_def adds_refl)
next
  case False
  define w1 where "w1 = record_event w (ReadFileCall (AbsPath fl) (readFile env (trace w) (AbsPath fl)))"
  have a1: "adds (deletesIn S) w w1" by (simp add: w1_def adds_record)
  show ?thesis
  proof (cases "readFile env (trace w) (AbsPath fl)")
    case (Inl err)
    with assms False a1 show ?thesis
      by (auto simp: indexFile_def Let_def w1_def)
  next
    case (Inr content)
    with assms False obtain chunks where
      "indexChunks env i reindexAll fl chunks (w1, st, sm) = Some (w', res)"
      by (auto simp: indexFile_def Let_def w1_def split: option.splits)
    from indexChunks_adds [OF this assms(2)] a1 show ?thesis
      by (auto intro: adds_trans)
  qed
qed

lemma indexFiles_adds:
  "indexFiles env i reindexAll files (w, st, sm) = Some (w', res) \<Longrightarrow>
     RelPath ` set files \<subseteq> S \<Longrightarrow> adds (deletesIn S) w w'"
proof (induction files arbitrary: w st sm)
  case Nil
  then show ?case by (auto simp: adds_refl)
next
  case (Cons fl files)
  from Cons.prems obtain w1 r1 where one: "indexFile env i reindexAll fl (w, st, sm) = Some (w1, r1)"
    by (auto split: option.splits)
  from Cons.prems(2) have "RelPath fl \<in> S" by simp
  note a1 = indexFile_adds [OF one this]
  show ?case
  proof (cases r1)
    case (Inl err)
    with Cons.prems one a1 show ?thesis by auto
  next
    case (Inr p)
    obtain st1 sm1 where p: "p = (st1, sm1)" by (cases p)
    with Cons.prems one Inr have "indexFiles env i reindexAll files (w1, st1, sm1) = Some (w', res)"
      by simp
    from Cons.IH [OF this] Cons.prems(2) a1 show ?thesis by (auto intro: adds_trans)
  qed
qed


lemma deletedPaths_append: "deletedPaths (xs @ ys) = deletedPaths xs @ deletedPaths ys"
  by (induction xs rule: deletedPaths.induct) auto

lemma deletedPaths_deletesIn: "\<forall>e \<in> set es. deletesIn S e \<Longrightarrow> set (deletedPaths es) \<subseteq> S"
  by (induction es rule: deletedPaths.induct) auto

lemma adds_added: "adds Q w w' \<Longrightarrow> trace w' = trace w @ added w w' \<and> (\<forall>e \<in> set (added w w'). Q e)"
  by (auto simp: adds_def added_def)

lemma added_trans:
  "adds Q w w1 \<Longrightarrow> adds R w1 w2 \<Longrightarrow> added w w2 = added w w1 @ added w1 w2"
  by (auto simp: adds_def added_def)

lemma adds_none_deleted: "adds (deletesIn {}) w w' \<Longrightarrow> deletedPaths (added w w') = []"
  using deletedPaths_deletesIn [of "added w w'" "{}"] by (auto dest: adds_added)

text \<open>A removal pass that succeeds deletes the paths that are not on disk, each once.\<close>

lemma removalPass_success:
  assumes "removalPass env cur paths (w, st, sm) = (w', Inr (st', sm'))"
  shows "trace w' = trace w @ map (\<lambda>p. DeleteByPathCall p None) (filter (\<lambda>p. cur p = None) paths)"
    and "RemovedFiles sm' = RemovedFiles sm + int (length (filter (\<lambda>p. cur p = None) paths))"
    and "map_of (Files st') p
           = (if p \<in> set paths \<and> cur p = None then None else map_of (Files st) p)"
  using assms
proof (induction paths arbitrary: w st sm)
  case Nil
  {
    case 1 then show ?case by simp
  next
    case 2 then show ?case by simp
  next
    case 3 then show ?case by simp
  }
next
  case (Cons q qs)
  {
    case 1
    show ?case
    proof (cases "cur q = None")
      case False
      with 1 Cons.IH(1) show ?thesis by simp
    next
      case True
      with 1 have ans: "deleteByPath env (trace w) q = None"
        and rest: "removalPass env cur qs (record_event w (DeleteByPathCall q None),
             st\<lparr>Files := AList.delete q (Files st)\<rparr>,
             sm\<lparr>RemovedFiles := RemovedFiles sm + 1\<rparr>) = (w', Inr (st', sm'))"
        by (auto simp: Let_def split: option.splits)
      from Cons.IH(1) [OF rest] True show ?thesis
        by (simp add: record_event_def)
    qed
  next
    case 2
    show ?case
    proof (cases "cur q = None")
      case False
      with 2 Cons.IH(2) show ?thesis by simp
    next
      case True
      with 2 have rest: "removalPass env cur qs (record_event w (DeleteByPathCall q None),
             st\<lparr>Files := AList.delete q (Files st)\<rparr>,
             sm\<lparr>RemovedFiles := RemovedFiles sm + 1\<rparr>) = (w', Inr (st', sm'))"
        by (auto simp: Let_def split: option.splits)
      from Cons.IH(2) [OF rest] True show ?thesis by simp
    qed
  next
    case 3
    show ?case
    proof (cases "cur q = None")
      case False
      with 3 Cons.IH(3) [of w st sm] show ?thesis by auto
    next
      case True
      with 3 have rest: "removalPass env cur qs (record_event w (DeleteByPathCall q None),
             st\<lparr>Files := AList.delete q (Files st)\<rparr>,
             sm\<lparr>RemovedFiles := RemovedFiles sm + 1\<rparr>) = (w', Inr (st', sm'))"
        by (auto simp: Let_def split: option.splits)
      from Cons.IH(3) [OF rest] True show ?thesis
        by (auto simp: delete_conv')
    qed
  }
qed

lemma deletedPaths_map: "deletedPaths (map (\<lambda>p. DeleteByPathCall p None) ps) = ps"
  by (induction ps) auto

lemma count_list_filter_distinct:
  "distinct ps \<Longrightarrow> p \<in> set ps \<Longrightarrow> P p \<Longrightarrow> count_list (filter P ps) p = 1"
  by (induction ps) (auto simp: count_list_0_iff)

lemma count_list_not_in: "p \<notin> set ps \<Longrightarrow> count_list ps p = 0"
  by (simp add: count_list_0_iff)

subsection \<open>What the pass over the files keeps\<close>

lemma upsertBatch_Removed:
  "upsertBatch env fl batch embeddings (w, st, sm) = (w', Inr (st', sm')) \<Longrightarrow>
     RemovedFiles sm' = RemovedFiles sm \<and> st' = st"
  by (auto simp: upsertBatch_def Let_def split: option.splits)

lemma embedBatchStep_Removed:
  "embedBatchStep env i reindexAll fl batch (w, st, sm) = (w', Inr (st', sm')) \<Longrightarrow>
     RemovedFiles sm' = RemovedFiles sm"
  by (auto simp: embedBatchStep_def Let_def dest: upsertBatch_Removed
      split: if_splits sum.splits prod.splits)

lemma embedLoop_Removed:
  "embedLoop env i reindexAll fl chunks start (w, st, sm) = Some (w', Inr (st', sm')) \<Longrightarrow>
     RemovedFiles sm' = RemovedFiles sm"
proof (induction env i reindexAll fl chunks start "(w, st, sm)" arbitrary: w st sm
    rule: embedLoop.induct)
  case (1 env i reindexAll fl chunks start)
  from "1.prems" have pos: "\<not> batchSize (embedder i) \<le> 0"
    by (subst (asm) embedLoop_unfold) (auto split: if_splits)
  show ?case
  proof (cases "start < length chunks")
    case False
    with "1.prems" pos show ?thesis
      by (subst (asm) embedLoop_unfold) auto
  next
    case True
    define e where "e = (if start + nat (batchSize (embedder i)) > length chunks then length chunks
                   else start + nat (batchSize (embedder i)))"
    define batch where "batch = take (e - start) (drop start chunks)"
    obtain w1 r1 where step: "embedBatchStep env i reindexAll fl batch (w, st, sm) = (w1, r1)"
      by (cases "embedBatchStep env i reindexAll fl batch (w, st, sm)")
    from "1.prems" pos True step have unf:
      "(case r1 of Inl err \<Rightarrow> Some (w1, Inl err)
        | Inr progress \<Rightarrow> embedLoop env i reindexAll fl chunks
               (start + nat (batchSize (embedder i))) (w1, progress)) = Some (w', Inr (st', sm'))"
      by (subst (asm) embedLoop_unfold) (simp add: e_def batch_def)
    show ?thesis
    proof (cases r1)
      case (Inl err)
      with unf show ?thesis by simp
    next
      case (Inr progress)
      obtain st1 sm1 where progress: "progress = (st1, sm1)" by (cases progress)
      with unf Inr have "embedLoop env i reindexAll fl chunks
               (start + nat (batchSize (embedder i))) (w1, st1, sm1) = Some (w', Inr (st', sm'))"
        by simp
      from "1.hyps" [OF pos True e_def batch_def step [symmetric] Inr [unfolded progress] this]
      have "RemovedFiles sm' = RemovedFiles sm1" .
      moreover from step Inr progress have "RemovedFiles sm1 = RemovedFiles sm"
        by (auto dest: embedBatchStep_Removed)
      ultimately show ?thesis by simp
    qed
  qed
qed

lemma indexChunks_Removed:
  "indexChunks env i reindexAll fl chunks (w, st, sm) = Some (w', Inr (st', sm')) \<Longrightarrow>
     RemovedFiles sm' = RemovedFiles sm"
  by (auto simp: indexChunks_def Let_def dest: embedLoop_Removed
      split: if_splits option.splits sum.splits prod.splits)

lemma indexFile_Removed:
  "indexFile env i reindexAll fl (w, st, sm) = Some (w', Inr (st', sm')) \<Longrightarrow>
     RemovedFiles sm' = RemovedFiles sm"
  by (auto simp: indexFile_def Let_def dest: indexChunks_Removed
      split: if_splits option.splits sum.splits)

lemma indexFiles_keeps:
  "indexFiles env i reindexAll files (w, st, sm) = Some (w', Inr (st', sm')) \<Longrightarrow>
     RemovedFiles sm' = RemovedFiles sm \<and>
     (\<forall>p. p \<notin> RelPath ` set files \<longrightarrow> map_of (Files st') p = map_of (Files st) p)"
proof (induction files arbitrary: w st sm)
  case Nil
  then show ?case by simp
next
  case (Cons fl files)
  from Cons.prems obtain w1 st1 sm1 where
    one: "indexFile env i reindexAll fl (w, st, sm) = Some (w1, Inr (st1, sm1))"
    and rest: "indexFiles env i reindexAll files (w1, st1, sm1) = Some (w', Inr (st', sm'))"
    by (auto split: option.splits sum.splits prod.splits)
  from indexFile_Files [OF one] have "\<forall>p. p \<noteq> RelPath fl \<longrightarrow> map_of (Files st1) p = map_of (Files st) p"
    by (auto simp: update_conv')
  with Cons.IH [OF rest] indexFile_Removed [OF one] show ?case by auto
qed

lemma saveIndexState_success:
  "saveIndexState env w st = (w', None) \<Longrightarrow>
     trace w' = trace w \<and>
     (\<exists>data. stateFile w' = Inr data \<and>
        jsonMarshal env (st\<lparr>UpdatedAt := timeNow env (trace w)\<rparr>) = Inr data)"
  by (auto simp: saveIndexState_def Let_def split: sum.splits option.splits prod.splits)

text \<open>The stages of a run that succeeds.\<close>

lemma run_success:
  assumes "run env i opts w = Some (w', Inr summary)"
  obtains w2 reindexAll files st3 sm1 w3 st4 where
    "runSetup env i opts w = (w2, Inr (reindexAll, files, st3, sm1))"
    "indexFiles env i reindexAll files (w2, st3, sm1) = Some (w3, Inr (st4, summary))"
    "saveIndexState env w3 (stampState i st4) = (w', None)"
  using assms
  by (auto simp: run_def split: prod.splits sum.splits option.splits)

lemma prepareIndex_removed:
  assumes prep: "prepareIndex env i False files st0 w = (w2, Inr (st3, sm1))"
    and dist: "distinct (map fst (Files st0))"
  shows "deletedPaths (added w w2) = filter (\<lambda>p. p \<notin> RelPath ` set files) (map fst (Files st0))"
    and "RemovedFiles sm1
           = int (length (filter (\<lambda>p. p \<notin> RelPath ` set files) (map fst (Files st0))))"
    and "p \<in> fst ` set (Files st0) \<Longrightarrow> p \<notin> RelPath ` set files \<Longrightarrow> map_of (Files st3) p = None"
    and "\<exists>new. trace w2 = trace w @ new"
proof -
  let ?cur = "currentFilesOf files Map.empty"
  obtain w1 r1 where e: "ensureInitial env i False (w, st0) = (w1, r1)"
    by (cases "ensureInitial env i False (w, st0)")
  with prep obtain st1 where r1: "r1 = Inr st1"
    and pass: "removalPass env ?cur (map fst (Files st1)) (w1, st1, newSummary files)
                 = (w2, Inr (st3, sm1))"
    by (cases r1) (auto simp: prepareIndex_def Let_def)
  from e r1 have files: "Files st1 = Files st0" by (auto dest: ensureInitial_Files)
  have cur: "(\<lambda>p. ?cur p = None) = (\<lambda>p. p \<notin> RelPath ` set files)"
    by (simp add: currentFilesOf_None)
  from ensureInitial_adds [OF e, of "{}"] have a1: "adds (deletesIn {}) w w1" .
  from adds_added [OF a1] adds_none_deleted [OF a1]
  have t1: "trace w1 = trace w @ added w w1" and d1: "deletedPaths (added w w1) = []" by simp_all
  from removalPass_success(1) [OF pass]
  have t2: "trace w2 = trace w1 @ map (\<lambda>p. DeleteByPathCall p None)
              (filter (\<lambda>p. p \<notin> RelPath ` set files) (map fst (Files st0)))"
    by (simp add: cur files)
  from t1 t2 have "trace w2 = trace w @ (added w w1 @ map (\<lambda>p. DeleteByPathCall p None)
              (filter (\<lambda>p. p \<notin> RelPath ` set files) (map fst (Files st0))))"
    by simp
  then have "added w w2 = added w w1 @ map (\<lambda>p. DeleteByPathCall p None)
              (filter (\<lambda>p. p \<notin> RelPath ` set files) (map fst (Files st0)))"
    by (rule added_eq)
  then show "deletedPaths (added w w2)
               = filter (\<lambda>p. p \<notin> RelPath ` set files) (map fst (Files st0))"
    by (simp add: deletedPaths_append d1 deletedPaths_map)
  from removalPass_success(2) [OF pass]
  show "RemovedFiles sm1
           = int (length (filter (\<lambda>p. p \<notin> RelPath ` set files) (map fst (Files st0))))"
    by (simp add: cur files newSummary_def)
  from t1 t2 show "\<exists>new. trace w2 = trace w @ new" by simp
  assume "p \<in> fst ` set (Files st0)" "p \<notin> RelPath ` set files"
  with removalPass_success(3) [OF pass, of p] show "map_of (Files st3) p = None"
    by (simp add: files currentFilesOf_None)
qed


text \<open>Before a rebuild the manifest is emptied, and the removal pass has nothing to do.\<close>

lemma prepareIndex_rebuild:
  assumes prep: "prepareIndex env i True files st0 w = (w2, Inr (st3, sm1))"
  shows "deletedPaths (added w w2) = []" and "RemovedFiles sm1 = 0" and "Files st3 = []"
    and "\<exists>new. trace w2 = trace w @ new"
proof -
  obtain w1 r1 where e: "ensureInitial env i True (w, st0) = (w1, r1)"
    by (cases "ensureInitial env i True (w, st0)")
  with prep obtain st1 where r1: "r1 = Inr st1"
    and out: "w2 = w1" "st3 = st1\<lparr>Files := []\<rparr>" "sm1 = newSummary files"
    by (cases r1) (auto simp: prepareIndex_def Let_def)
  from ensureInitial_adds [OF e, of "{}"] have a1: "adds (deletesIn {}) w w1" .
  from adds_none_deleted [OF a1] out show "deletedPaths (added w w2) = []" by simp
  from out show "RemovedFiles sm1 = 0" by (simp add: newSummary_def)
  from out show "Files st3 = []" by simp
  from adds_added [OF a1] out show "\<exists>new. trace w2 = trace w @ new" by auto
qed

text \<open>
  Claim C7, as amended. Take a run that succeeds and a path that the loaded manifest holds
  and the scan of the vault does not list. When the run does not rebuild everything, exactly
  one delete-by-path call names the path; when it rebuilds everything, none does. Either
  way the path is absent from the file set of the manifest that is saved. \<open>RemovedFiles\<close>
  is the number of such paths in the first case and 0 in the second. (The keys of the
  manifest, a Go map, are distinct.)
\<close>

theorem removed_files_are_deleted:
  assumes ran: "run env i opts w = Some (w', Inr summary)"
    and loaded: "loadIndexState env w = Inr st0"
    and keys: "distinct (map fst (Files st0))"
    and scan: "listMarkdownFiles (walkDir env (pathClean env (expandHome env (cfgVaultPath (cfg i)))))
                 (cfgIncludePatterns (cfg i)) (cfgExcludePatterns (cfg i)) = Inr files"
  shows "(\<forall>p \<in> fst ` set (Files st0). p \<notin> RelPath ` set files \<longrightarrow>
            count_list (deletedPaths (added w w')) p
              = (if decideReindexAll opts (Some st0) i then 0 else 1)
            \<and> (\<exists>w3 st4 data. saveIndexState env w3 (stampState i st4) = (w', None)
                  \<and> stateFile w' = Inr data
                  \<and> jsonMarshal env ((stampState i st4)\<lparr>UpdatedAt := timeNow env (trace w3)\<rparr>)
                      = Inr data
                  \<and> map_of (Files (stampState i st4)) p = None))
         \<and> RemovedFiles summary
             = (if decideReindexAll opts (Some st0) i then 0
                else int (length (filter (\<lambda>p. p \<notin> RelPath ` set files) (map fst (Files st0)))))"
proof -
  let ?all = "decideReindexAll opts (Some st0) i"
  let ?gone = "filter (\<lambda>p. p \<notin> RelPath ` set files) (map fst (Files st0))"
  from ran obtain w2 reindexAll files' st3 sm1 w3 st4 where
    prep: "runSetup env i opts w = (w2, Inr (reindexAll, files', st3, sm1))"
    and idx: "indexFiles env i reindexAll files' (w2, st3, sm1) = Some (w3, Inr (st4, summary))"
    and save: "saveIndexState env w3 (stampState i st4) = (w', None)"
    by (rule run_success)
  from prep have pi: "prepareIndex env i ?all files st0 w = (w2, Inr (st3, sm1))
      \<and> reindexAll = ?all \<and> files' = files"
  proof (cases rule: runSetup_cases)
    case early
    then show ?thesis by simp
  next
    case (prepared files'' r)
    with loaded scan show ?thesis by (auto split: sum.splits)
  qed
  then have prepared: "prepareIndex env i ?all files st0 w = (w2, Inr (st3, sm1))"
    and idx': "indexFiles env i ?all files (w2, st3, sm1) = Some (w3, Inr (st4, summary))"
    using idx by simp_all
  have removed: "deletedPaths (added w w2) = (if ?all then [] else ?gone)
      \<and> RemovedFiles sm1 = (if ?all then 0 else int (length ?gone))
      \<and> (\<forall>p \<in> fst ` set (Files st0). p \<notin> RelPath ` set files \<longrightarrow> map_of (Files st3) p = None)
      \<and> (\<exists>new. trace w2 = trace w @ new)"
  proof (cases ?all)
    case True
    with prepared have "prepareIndex env i True files st0 w = (w2, Inr (st3, sm1))" by simp
    from prepareIndex_rebuild [OF this] True show ?thesis by simp
  next
    case False
    with prepared have "prepareIndex env i False files st0 w = (w2, Inr (st3, sm1))" by simp
    from prepareIndex_removed [OF this keys] False show ?thesis by simp
  qed
  from indexFiles_adds [OF idx', of "RelPath ` set files"]
  have a3: "adds (deletesIn (RelPath ` set files)) w2 w3" by simp
  from adds_added [OF a3]
  have t3: "trace w3 = trace w2 @ added w2 w3"
    and q3: "\<forall>e \<in> set (added w2 w3). deletesIn (RelPath ` set files) e" by simp_all
  from deletedPaths_deletesIn [OF q3]
  have d3: "set (deletedPaths (added w2 w3)) \<subseteq> RelPath ` set files" .
  from saveIndexState_success [OF save] obtain data where
    t4: "trace w' = trace w3" and written: "stateFile w' = Inr data"
    and marshal: "jsonMarshal env ((stampState i st4)\<lparr>UpdatedAt := timeNow env (trace w3)\<rparr>) = Inr data"
    by auto
  from removed obtain new where t2: "trace w2 = trace w @ new" by blast
  from t2 have "added w w2 = new" by (rule added_eq)
  moreover from t2 t3 t4 have "trace w' = trace w @ (new @ added w2 w3)" by simp
  then have "added w w' = new @ added w2 w3" by (rule added_eq)
  ultimately have "added w w' = added w w2 @ added w2 w3" by simp
  with removed have deleted: "deletedPaths (added w w')
      = (if ?all then [] else ?gone) @ deletedPaths (added w2 w3)"
    by (simp add: deletedPaths_append)
  from indexFiles_keeps [OF idx'] have kept: "RemovedFiles summary = RemovedFiles sm1"
    and same: "\<And>p. p \<notin> RelPath ` set files \<Longrightarrow> map_of (Files st4) p = map_of (Files st3) p"
    by simp_all
  have "count_list (deletedPaths (added w w')) p = (if ?all then 0 else 1)
            \<and> (\<exists>w3 st4 data. saveIndexState env w3 (stampState i st4) = (w', None)
                  \<and> stateFile w' = Inr data
                  \<and> jsonMarshal env ((stampState i st4)\<lparr>UpdatedAt := timeNow env (trace w3)\<rparr>)
                      = Inr data
                  \<and> map_of (Files (stampState i st4)) p = None)"
    if p: "p \<in> fst ` set (Files st0)" and gone: "p \<notin> RelPath ` set files" for p
  proof
    from p have "p \<in> set (map fst (Files st0))" by simp
    from count_list_filter_distinct [OF keys this, of "\<lambda>p. p \<notin> RelPath ` set files"] gone
    have "count_list ?gone p = 1"
      by simp
    moreover from d3 gone have "count_list (deletedPaths (added w2 w3)) p = 0"
      by (auto simp: count_list_0_iff)
    ultimately show "count_list (deletedPaths (added w w')) p = (if ?all then 0 else 1)"
      by (simp add: deleted)
    from same [OF gone] removed p gone have "map_of (Files (stampState i st4)) p = None"
      by (simp add: stampState_def)
    with save written marshal show "\<exists>w3 st4 data. saveIndexState env w3 (stampState i st4) = (w', None)
                  \<and> stateFile w' = Inr data
                  \<and> jsonMarshal env ((stampState i st4)\<lparr>UpdatedAt := timeNow env (trace w3)\<rparr>)
                      = Inr data
                  \<and> map_of (Files (stampState i st4)) p = None"
      by blast
  qed
  moreover from kept removed have "RemovedFiles summary
             = (if ?all then 0 else int (length ?gone))"
    by simp
  ultimately show ?thesis by blast
qed


theorem removed_files_are_deleted_witness:
  "run (sampleEnv (\<lambda>texts. Inr (map (\<lambda>t. [0, 0]) texts))) (sampleIndexer 0) \<lparr>ReindexAll = False\<rparr> \<lparr>trace = [], stateFile = Inr ''manifest''\<rparr>
     = Some (\<lparr>trace = [EnsureCollectionCall 2 False None, DeleteByPathCall ''old.md'' None,
                 ReadFileCall ''/vault/b.md'' (Inr ''# B\<newline>world''),
                 DeleteByPathCall ''b.md'' None,
                 EmbedBatchCall [''# B\<newline>world''] (Inr [[0, 0]]),
                 UpsertCall
                   [\<lparr>ID = ''b.md:1:2'', Vector = [0, 0],
                     Payload =
                       \<lparr>payloadPath = ''b.md'', payloadHeading = ''B'',
                        payloadStartLine = 1, payloadEndLine = 2,
                        payloadContent = ''# B\<newline>world'', payloadMTime = 9\<rparr>\<rparr>]
                   None],
              stateFile = Inr ''saved:a.mdb.md''\<rparr>,
             Inr \<lparr>TotalFiles = 2, IndexedFiles = 0, UpdatedFiles = 1, RemovedFiles = 1, SkippedFiles = 1, Chunks = 1\<rparr>)
   \<and> run (sampleEnv (\<lambda>texts. Inr (map (\<lambda>t. [0, 0]) texts))) (sampleIndexer 0) \<lparr>ReindexAll = True\<rparr> \<lparr>trace = [], stateFile = Inr ''manifest''\<rparr>
     = Some (\<lparr>trace = [EnsureCollectionCall 2 True None,
                 ReadFileCall ''/vault/a.md'' (Inr ''alpha\<newline>beta''),
                 DeleteByPathCall ''a.md'' None,
                 EmbedBatchCall [''alpha\<newline>beta''] (Inr [[0, 0]]),
                 UpsertCall
                   [\<lparr>ID = ''a.md:1:2'', Vector = [0, 0],
                     Payload =
                       \<lparr>payloadPath = ''a.md'', payloadHeading = ''a'',
                        payloadStartLine = 1, payloadEndLine = 2,
                        payloadContent = ''alpha\<newline>beta'', payloadMTime = 7\<rparr>\<rparr>]
                   None,
                 ReadFileCall ''/vault/b.md'' (Inr ''# B\<newline>world''),
                 DeleteByPathCall ''b.md'' None,
                 EmbedBatchCall [''# B\<newline>world''] (Inr [[0, 0]]),
                 UpsertCall
                   [\<lparr>ID = ''b.md:1:2'', Vector = [0, 0],
                     Payload =
                       \<lparr>payloadPath = ''b.md'', payloadHeading = ''B'',
                        payloadStartLine = 1, payloadEndLine = 2,
                        payloadContent = ''# B\<newline>world'', payloadMTime = 9\<rparr>\<rparr>]
                   None],
              stateFile = Inr ''saved:a.mdb.md''\<rparr>,
             Inr \<lparr>TotalFiles = 2, IndexedFiles = 2, UpdatedFiles = 0, RemovedFiles = 0, SkippedFiles = 0, Chunks = 2\<rparr>)
   \<and> loadIndexState (sampleEnv (\<lambda>texts. Inr (map (\<lambda>t. [0, 0]) texts))) \<lparr>trace = [], stateFile = Inr ''manifest''\<rparr> = Inr sampleManifest
   \<and> \<not> decideReindexAll \<lparr>ReindexAll = False\<rparr> (Some sampleManifest) (sampleIndexer 0)
   \<and> decideReindexAll \<lparr>ReindexAll = True\<rparr> (Some sampleManifest) (sampleIndexer 0)
   \<and> distinct (map fst (Files sampleManifest))
   \<and> listMarkdownFiles sampleWalk [] [] = Inr [\<lparr>AbsPath = ''/vault/a.md'', RelPath = ''a.md'', MTime = 7\<rparr>, \<lparr>AbsPath = ''/vault/b.md'', RelPath = ''b.md'', MTime = 9\<rparr>]
   \<and> ''old.md'' \<in> fst ` set (Files sampleManifest)
   \<and> count_list (deletedPaths ([EnsureCollectionCall 2 False None, DeleteByPathCall ''old.md'' None,
                 ReadFileCall ''/vault/b.md'' (Inr ''# B\<newline>world''),
                 DeleteByPathCall ''b.md'' None,
                 EmbedBatchCall [''# B\<newline>world''] (Inr [[0, 0]]),
                 UpsertCall
                   [\<lparr>ID = ''b.md:1:2'', Vector = [0, 0],
                     Payload =
                       \<lparr>payloadPath = ''b.md'', payloadHeading = ''B'',
                        payloadStartLine = 1, payloadEndLine = 2,
                        payloadContent = ''# B\<newline>world'', payloadMTime = 9\<rparr>\<rparr>]
                   None] :: nat event list)) ''old.md'' = 1
   \<and> count_list (deletedPaths ([EnsureCollectionCall 2 True None,
                 ReadFileCall ''/vault/a.md'' (Inr ''alpha\<newline>beta''),
                 DeleteByPathCall ''a.md'' None,
                 EmbedBatchCall [''alpha\<newline>beta''] (Inr [[0, 0]]),
                 UpsertCall
                   [\<lparr>ID = ''a.md:1:2'', Vector = [0, 0],
                     Payload =
                       \<lparr>payloadPath = ''a.md'', payloadHeading = ''a'',
                        payloadStartLine = 1, payloadEndLine = 2,
                        payloadContent = ''alpha\<newline>beta'', payloadMTime = 7\<rparr>\<rparr>]
                   None,
                 ReadFileCall ''/vault/b.md'' (Inr ''# B\<newline>world''),
                 DeleteByPathCall ''b.md'' None,
                 EmbedBatchCall [''# B\<newline>world''] (Inr [[0, 0]]),
                 UpsertCall
                   [\<lparr>ID = ''b.md:1:2'', Vector = [0, 0],
                     Payload =
                       \<lparr>payloadPath = ''b.md'', payloadHeading = ''B'',
                        payloadStartLine = 1, payloadEndLine = 2,
                        payloadContent = ''# B\<newline>world'', payloadMTime = 9\<rparr>\<rparr>]
                   None] :: nat event list)) ''old.md'' = 0
   \<and> (\<exists>saved. jsonMarshal (sampleEnv (\<lambda>texts. Inr (map (\<lambda>t. [0, 0]) texts))) saved = Inr ''saved:a.mdb.md''
         \<and> map_of (Files saved) ''old.md'' = None)"
proof -
  let ?env = "sampleEnv (\<lambda>texts. Inr (map (\<lambda>t. [0, 0]) texts)) :: nat environment"
  let ?w = "\<lparr>trace = [], stateFile = Inr ''manifest''\<rparr> :: nat world"
  let ?new = "[EnsureCollectionCall 2 False None, DeleteByPathCall ''old.md'' None,
                 ReadFileCall ''/vault/b.md'' (Inr ''# B\<newline>world''),
                 DeleteByPathCall ''b.md'' None,
                 EmbedBatchCall [''# B\<newline>world''] (Inr [[0, 0]]),
                 UpsertCall
                   [\<lparr>ID = ''b.md:1:2'', Vector = [0, 0],
                     Payload =
                       \<lparr>payloadPath = ''b.md'', payloadHeading = ''B'',
                        payloadStartLine = 1, payloadEndLine = 2,
                        payloadContent = ''# B\<newline>world'', payloadMTime = 9\<rparr>\<rparr>]
                   None] :: nat event list"
  let ?all = "[EnsureCollectionCall 2 True None,
                 ReadFileCall ''/vault/a.md'' (Inr ''alpha\<newline>beta''),
                 DeleteByPathCall ''a.md'' None,
                 EmbedBatchCall [''alpha\<newline>beta''] (Inr [[0, 0]]),
                 UpsertCall
                   [\<lparr>ID = ''a.md:1:2'', Vector = [0, 0],
                     Payload =
                       \<lparr>payloadPath = ''a.md'', payloadHeading = ''a'',
                        payloadStartLine = 1, payloadEndLine = 2,
                        payloadContent = ''alpha\<newline>beta'', payloadMTime = 7\<rparr>\<rparr>]
                   None,
                 ReadFileCall ''/vault/b.md'' (Inr ''# B\<newline>world''),
                 DeleteByPathCall ''b.md'' None,
                 EmbedBatchCall [''# B\<newline>world''] (Inr [[0, 0]]),
                 UpsertCall
                   [\<lparr>ID = ''b.md:1:2'', Vector = [0, 0],
                     Payload =
                       \<lparr>payloadPath = ''b.md'', payloadHeading = ''B'',
                        payloadStartLine = 1, payloadEndLine = 2,
                        payloadContent = ''# B\<newline>world'', payloadMTime = 9\<rparr>\<rparr>]
                   None] :: nat event list"
  let ?w' = "\<lparr>trace = ?new, stateFile = Inr ''saved:a.mdb.md''\<rparr> :: nat world"
  let ?w'' = "\<lparr>trace = ?all, stateFile = Inr ''saved:a.mdb.md''\<rparr> :: nat world"
  let ?sm = "\<lparr>TotalFiles = 2, IndexedFiles = 0, UpdatedFiles = 1, RemovedFiles = 1, SkippedFiles = 1, Chunks = 1\<rparr>"
  let ?sm' = "\<lparr>TotalFiles = 2, IndexedFiles = 2, UpdatedFiles = 0, RemovedFiles = 0, SkippedFiles = 0, Chunks = 2\<rparr>"
  let ?fa = "\<lparr>AbsPath = ''/vault/a.md'', RelPath = ''a.md'', MTime = 7\<rparr>"
  let ?fb = "\<lparr>AbsPath = ''/vault/b.md'', RelPath = ''b.md'', MTime = 9\<rparr>"
  have ran: "run ?env (sampleIndexer 0) \<lparr>ReindexAll = False\<rparr> ?w = Some (?w', Inr ?sm)"
    by code_simp
  have rebuilt: "run ?env (sampleIndexer 0) \<lparr>ReindexAll = True\<rparr> ?w = Some (?w'', Inr ?sm')"
    by code_simp
  have loaded: "loadIndexState ?env ?w = Inr sampleManifest"
    by (simp add: loadIndexState_def sampleEnv_def)
  have partial: "\<not> decideReindexAll \<lparr>ReindexAll = False\<rparr> (Some sampleManifest) (sampleIndexer 0)"
    by code_simp
  have whole: "decideReindexAll \<lparr>ReindexAll = True\<rparr> (Some sampleManifest) (sampleIndexer 0)"
    by code_simp
  have keys: "distinct (map fst (Files sampleManifest))"
    by (simp add: sampleManifest_def)
  have listed: "listMarkdownFiles sampleWalk [] [] = Inr [?fa, ?fb]"
    by code_simp
  then have scan: "listMarkdownFiles
      (walkDir ?env (pathClean ?env (expandHome ?env (cfgVaultPath (cfg (sampleIndexer 0))))))
      (cfgIncludePatterns (cfg (sampleIndexer 0))) (cfgExcludePatterns (cfg (sampleIndexer 0)))
      = Inr [?fa, ?fb]"
    by (simp add: sampleEnv_def sampleIndexer_def)
  have mem: "''old.md'' \<in> fst ` set (Files sampleManifest)"
    by (simp add: sampleManifest_def)
  have gone: "''old.md'' \<notin> RelPath ` set [?fa, ?fb]"
    by simp
  have new: "added ?w ?w' = ?new" and all: "added ?w ?w'' = ?all"
    by (simp_all add: added_def)
  from removed_files_are_deleted [OF ran loaded keys scan] mem gone
  have "count_list (deletedPaths (added ?w ?w')) ''old.md''
          = (if decideReindexAll \<lparr>ReindexAll = False\<rparr> (Some sampleManifest) (sampleIndexer 0)
             then 0 else 1)
        \<and> (\<exists>w3 st4 data. saveIndexState ?env w3 (stampState (sampleIndexer 0) st4) = (?w', None)
              \<and> stateFile ?w' = Inr data
              \<and> jsonMarshal ?env ((stampState (sampleIndexer 0) st4)
                    \<lparr>UpdatedAt := timeNow ?env (trace w3)\<rparr>) = Inr data
              \<and> map_of (Files (stampState (sampleIndexer 0) st4)) ''old.md'' = None)"
    by blast
  then have one: "count_list (deletedPaths ?new) ''old.md'' = 1
        \<and> (\<exists>saved. jsonMarshal ?env saved = Inr ''saved:a.mdb.md''
              \<and> map_of (Files saved) ''old.md'' = None)"
    unfolding new if_not_P [OF partial] by (auto simp: stampState_def)
  from removed_files_are_deleted [OF rebuilt loaded keys scan] mem gone
  have "count_list (deletedPaths (added ?w ?w'')) ''old.md''
          = (if decideReindexAll \<lparr>ReindexAll = True\<rparr> (Some sampleManifest) (sampleIndexer 0)
             then 0 else 1)"
    by blast
  then have none: "count_list (deletedPaths ?all) ''old.md'' = 0"
    unfolding all if_P [OF whole] .
  from ran rebuilt loaded partial whole keys listed mem one none show ?thesis by blast
qed

text \<open>
  Claim C7, as stated. A run that rebuilds everything empties the manifest before the
  removal pass: \<open>old.md\<close> is in the manifest that was loaded and is not on disk, yet no
  delete-by-path call names it and \<open>RemovedFiles\<close> stays at 0. And a run whose
  delete-by-path call fails returns the error: the one call was issued, no summary counts
  the file, and the manifest on disk still holds \<open>old.md\<close>.
\<close>

theorem full_rebuild_removal_counterexample:
  "loadIndexState (sampleEnv (\<lambda>texts. Inr (map (\<lambda>t. [0, 0]) texts))) \<lparr>trace = [], stateFile = Inr ''manifest''\<rparr> = Inr sampleManifest
   \<and> map_of (Files sampleManifest) ''old.md'' = Some 5
   \<and> listMarkdownFiles sampleWalk [] [] = Inr [\<lparr>AbsPath = ''/vault/a.md'', RelPath = ''a.md'', MTime = 7\<rparr>, \<lparr>AbsPath = ''/vault/b.md'', RelPath = ''b.md'', MTime = 9\<rparr>]
   \<and> run (sampleEnv (\<lambda>texts. Inr (map (\<lambda>t. [0, 0]) texts))) (sampleIndexer 0) \<lparr>ReindexAll = True\<rparr> \<lparr>trace = [], stateFile = Inr ''manifest''\<rparr>
     = Some (\<lparr>trace = [EnsureCollectionCall 2 True None,
                 ReadFileCall ''/vault/a.md'' (Inr ''alpha\<newline>beta''),
                 DeleteByPathCall ''a.md'' None,
                 EmbedBatchCall [''alpha\<newline>beta''] (Inr [[0, 0]]),
                 UpsertCall
                   [\<lparr>ID = ''a.md:1:2'', Vector = [0, 0],
                     Payload =
                       \<lparr>payloadPath = ''a.md'', payloadHeading = ''a'',
                        payloadStartLine = 1, payloadEndLine = 2,
                        payloadContent = ''alpha\<newline>beta'', payloadMTime = 7\<rparr>\<rparr>]
                   None,
                 ReadFileCall ''/vault/b.md'' (Inr ''# B\<newline>world''),
                 DeleteByPathCall ''b.md'' None,
                 EmbedBatchCall [''# B\<newline>world''] (Inr [[0, 0]]),
                 UpsertCall
                   [\<lparr>ID = ''b.md:1:2'', Vector = [0, 0],
                     Payload =
                       \<lparr>payloadPath = ''b.md'', payloadHeading = ''B'',
                        payloadStartLine = 1, payloadEndLine = 2,
                        payloadContent = ''# B\<newline>world'', payloadMTime = 9\<rparr>\<rparr>]
                   None],
              stateFile = Inr ''saved:a.mdb.md''\<rparr>,
             Inr \<lparr>TotalFiles = 2, IndexedFiles = 2, UpdatedFiles = 0, RemovedFiles = 0, SkippedFiles = 0, Chunks = 2\<rparr>)
   \<and> count_list
        (deletedPaths
           (added \<lparr>trace = [], stateFile = Inr ''manifest''\<rparr>
              (fst (the (run (sampleEnv (\<lambda>texts. Inr (map (\<lambda>t. [0, 0]) texts))) (sampleIndexer 0)
                 \<lparr>ReindexAll = True\<rparr> \<lparr>trace = [], stateFile = Inr ''manifest''\<rparr>)))))
        ''old.md'' = 0
   \<and> run ((sampleEnv (\<lambda>texts. Inr (map (\<lambda>t. [0, 0]) texts)))\<lparr>deleteByPath := \<lambda>tr path. Some (External ''503'')\<rparr>) (sampleIndexer 0)
        \<lparr>ReindexAll = False\<rparr> \<lparr>trace = [], stateFile = Inr ''manifest''\<rparr>
     = Some (\<lparr>trace = [EnsureCollectionCall 2 False None,
                        DeleteByPathCall ''old.md'' (Some (External ''503''))],
              stateFile = Inr ''manifest''\<rparr>,
             Inl (External ''503''))
   \<and> jsonUnmarshal ((sampleEnv (\<lambda>texts. Inr (map (\<lambda>t. [0, 0]) texts)))\<lparr>deleteByPath := \<lambda>tr path. Some (External ''503'')\<rparr>) ''manifest''
       = Inr sampleManifest"
proof -
  let ?env = "sampleEnv (\<lambda>texts. Inr (map (\<lambda>t. [0, 0]) texts)) :: nat environment"
  let ?w = "\<lparr>trace = [], stateFile = Inr ''manifest''\<rparr> :: nat world"
  have loaded: "loadIndexState ?env ?w = Inr sampleManifest"
    by (simp add: loadIndexState_def sampleEnv_def)
  have held: "map_of (Files sampleManifest) ''old.md'' = Some 5"
    by (simp add: sampleManifest_def)
  have listed: "listMarkdownFiles sampleWalk [] [] = Inr [\<lparr>AbsPath = ''/vault/a.md'', RelPath = ''a.md'', MTime = 7\<rparr>, \<lparr>AbsPath = ''/vault/b.md'', RelPath = ''b.md'', MTime = 9\<rparr>]"
    by code_simp
  have ran: "run ?env (sampleIndexer 0) \<lparr>ReindexAll = True\<rparr> ?w
     = Some (\<lparr>trace = [EnsureCollectionCall 2 True None,
                 ReadFileCall ''/vault/a.md'' (Inr ''alpha\<newline>beta''),
                 DeleteByPathCall ''a.md'' None,
                 EmbedBatchCall [''alpha\<newline>beta''] (Inr [[0, 0]]),
                 UpsertCall
                   [\<lparr>ID = ''a.md:1:2'', Vector = [0, 0],
                     Payload =
                       \<lparr>payloadPath = ''a.md'', payloadHeading = ''a'',
                        payloadStartLine = 1, payloadEndLine = 2,
                        payloadContent = ''alpha\<newline>beta'', payloadMTime = 7\<rparr>\<rparr>]
                   None,
                 ReadFileCall ''/vault/b.md'' (Inr ''# B\<newline>world''),
                 DeleteByPathCall ''b.md'' None,
                 EmbedBatchCall [''# B\<newline>world''] (Inr [[0, 0]]),
                 UpsertCall
                   [\<lparr>ID = ''b.md:1:2'', Vector = [0, 0],
                     Payload =
                       \<lparr>payloadPath = ''b.md'', payloadHeading = ''B'',
                        payloadStartLine = 1, payloadEndLine = 2,
                        payloadContent = ''# B\<newline>world'', payloadMTime = 9\<rparr>\<rparr>]
                   None],
              stateFile = Inr ''saved:a.mdb.md''\<rparr>,
             Inr \<lparr>TotalFiles = 2, IndexedFiles = 2, UpdatedFiles = 0, RemovedFiles = 0, SkippedFiles = 0, Chunks = 2\<rparr>)"
    by code_simp
  have none: "count_list (deletedPaths (added ?w (fst (the (run ?env (sampleIndexer 0)
                 \<lparr>ReindexAll = True\<rparr> ?w))))) ''old.md'' = 0"
    unfolding ran by (simp add: added_def)
  have failed: "run (?env\<lparr>deleteByPath := \<lambda>tr path. Some (External ''503'')\<rparr>) (sampleIndexer 0)
        \<lparr>ReindexAll = False\<rparr> ?w
     = Some (\<lparr>trace = [EnsureCollectionCall 2 False None,
                        DeleteByPathCall ''old.md'' (Some (External ''503''))],
              stateFile = Inr ''manifest''\<rparr>,
             Inl (External ''503''))"
    by code_simp
  have kept: "jsonUnmarshal (?env\<lparr>deleteByPath := \<lambda>tr path. Some (External ''503'')\<rparr>) ''manifest''
       = Inr sampleManifest"
    by (simp add: sampleEnv_def)
  from loaded held listed ran none failed kept show ?thesis by blast
qed

end
